theory Spec2Isabelle
  imports Main "HOL-Library.List_Lexorder" "HOL-Library.Char_ord" "HOL-Library.AList"
begin

section \<open>Exceptions and message formatting\<close>

text \<open>
  The exceptions of \<^verbatim>\<open>synapse.exc\<close> that \<^verbatim>\<open>synapse/lib/storm.py\<close> raises.
  Each carries its keyword arguments as an association list, in the order the
  source writes them. \<^verbatim>\<open>ValueError\<close> and \<^verbatim>\<open>TypeError\<close> are the built-in exceptions
  that a failed tuple unpacking raises.
\<close>

datatype error =
    AuthDeny "(string \<times> string) list"
  | BadOperArg "(string \<times> string) list"
  | Canceled
  | ValueError
  | TypeError

text \<open>Decimal rendering of an integer, as an f-string renders an \<^verbatim>\<open>int\<close>.\<close>

definition digit_char :: "nat \<Rightarrow> char" where
  "digit_char d = ''0123456789'' ! d"

fun str_of_nat :: "nat \<Rightarrow> string" where
  "str_of_nat n = (if n < 10 then [digit_char n] else str_of_nat (n div 10) @ [digit_char (n mod 10)])"

declare str_of_nat.simps [simp del]

definition str_of_int :: "int \<Rightarrow> string" where
  "str_of_int i = (if i < 0 then CHR ''-'' # str_of_nat (nat (- i)) else str_of_nat (nat i))"

text \<open>\<^verbatim>\<open>'.'.join(args)\<close>\<close>

fun join_dot :: "string list \<Rightarrow> string" where
  "join_dot [] = []"
| "join_dot [a] = a"
| "join_dot (a # b # rest) = a @ ''.'' @ join_dot (b # rest)"

section \<open>CountCmd\<close>

text \<open>
  \<^verbatim>\<open>
  def runStormCmd(self, snap, genr):
      i = 0
      for i, (node, path) in enumerate(genr, 1):
          yield node, path
      snap.printf(f'Counted {i} nodes.')
  \<close>
  The loop carries \<open>i\<close>, forwards every item, and the message is printed once the
  upstream is exhausted. The result is the list of forwarded items and the lines
  handed to \<^verbatim>\<open>snap.printf\<close>.
\<close>

fun count_loop :: "nat \<Rightarrow> nat \<Rightarrow> 'a list \<Rightarrow> 'a list \<times> nat" where
  "count_loop i k [] = ([], i)"
| "count_loop i k (item # genr) =
     (case count_loop k (Suc k) genr of (ys, i') \<Rightarrow> (item # ys, i'))"

definition CountCmd_runStormCmd :: "'a list \<Rightarrow> 'a list \<times> string list" where
  "CountCmd_runStormCmd genr =
     (case count_loop 0 1 genr of
        (ys, i) \<Rightarrow> (ys, [''Counted '' @ str_of_nat i @ '' nodes.'']))"

section \<open>LimitCmd\<close>

text \<open>
  \<^verbatim>\<open>
  def runStormCmd(self, snap, genr):
      for count, item in enumerate(genr):
          if count >= self.opts.count:
              snap.printf(f'limit reached: {self.opts.count}')
              break
          yield item
  \<close>
  The command is a generator: it advances only when its consumer asks for the next
  item. \<open>limit_loop d n count genr\<close> runs the loop for a consumer that asks \<open>d\<close>
  times, with \<open>n\<close> the \<^verbatim>\<open>count\<close> option and \<open>count\<close> the enumerate counter. It
  returns the forwarded items, what is left of the upstream (every item not in it
  has been pulled), and the lines printed.
\<close>

fun limit_loop :: "nat \<Rightarrow> int \<Rightarrow> int \<Rightarrow> 'a list \<Rightarrow> 'a list \<times> 'a list \<times> string list" where
  "limit_loop 0 n count genr = ([], genr, [])"
| "limit_loop (Suc d) n count [] = ([], [], [])"
| "limit_loop (Suc d) n count (item # genr) =
     (if count \<ge> n then ([], genr, [''limit reached: '' @ str_of_int n])
      else (case limit_loop d n (count + 1) genr of
              (ys, rest, out) \<Rightarrow> (item # ys, rest, out)))"

text \<open>
  A consumer that drains the command asks once more than the upstream has items,
  the last request being the one that ends the iteration.
\<close>

definition LimitCmd_runStormCmd :: "int \<Rightarrow> 'a list \<Rightarrow> 'a list \<times> 'a list \<times> string list" where
  "LimitCmd_runStormCmd n genr = limit_loop (Suc (length genr)) n 0 genr"

definition pulled :: "'a list \<Rightarrow> 'a list \<times> 'a list \<times> string list \<Rightarrow> nat" where
  "pulled genr r = length genr - length (fst (snd r))"

section \<open>Runtime: elevation and permission checks\<close>

text \<open>
  The permission principal (\<^verbatim>\<open>self.user\<close>): its name, its \<^verbatim>\<open>admin\<close> flag, and
  its rule evaluation \<^verbatim>\<open>user.allowed(args, elev=False)\<close>, which belongs to the
  authentication layer and is taken as a function of the permission path.
\<close>

record principal =
  uname :: string
  admin :: bool
  uallowed :: "string list \<Rightarrow> bool"

text \<open>
  The fields of \<^verbatim>\<open>Runtime\<close> that permission checking and cancellation read and
  write; \<open>memo\<close> is the store behind the \<^verbatim>\<open>@s_cache.memoize\<close> decorator of
  \<^verbatim>\<open>allowed\<close>.
\<close>

record runtime =
  user :: "principal option"
  canceled :: bool
  elevated :: bool
  memo :: "string list \<rightharpoonup> unit"

text \<open>
  \<^verbatim>\<open>
  def elevate(self):
      if self.user is not None:
          if not self.user.admin:
              raise s_exc.AuthDeny(mesg='user is not admin', user=self.user.name)
      self.elevated = True
  \<close>
\<close>

definition elevate :: "runtime \<Rightarrow> error + runtime" where
  "elevate rt =
     (case user rt of
        Some u \<Rightarrow>
          if \<not> admin u then Inl (AuthDeny [(''mesg'', ''user is not admin''), (''user'', uname u)])
          else Inr (rt\<lparr>elevated := True\<rparr>)
      | None \<Rightarrow> Inr (rt\<lparr>elevated := True\<rparr>))"

definition tick :: "runtime \<Rightarrow> error + unit" where
  "tick rt = (if canceled rt then Inl Canceled else Inr ())"

definition cancel :: "runtime \<Rightarrow> runtime" where
  "cancel rt = rt\<lparr>canceled := True\<rparr>"

text \<open>
  The body of \<^verbatim>\<open>Runtime.allowed\<close>, below the decorator:
  \<^verbatim>\<open>
  def allowed(self, *args):
      if self.user is None:
          return
      if self.elevated:
          return
      if self.user.allowed(args, elev=False):
          return
      # fails will not be cached...
      perm = '.'.join(args)
      raise s_exc.AuthDeny(perm=perm, user=self.user.name)
  \<close>
\<close>

definition allowed_body :: "runtime \<Rightarrow> string list \<Rightarrow> error + unit" where
  "allowed_body rt args =
     (case user rt of
        None \<Rightarrow> Inr ()
      | Some u \<Rightarrow>
          if elevated rt then Inr ()
          else if uallowed u args then Inr ()
          else Inl (AuthDeny [(''perm'', join_dot args), (''user'', uname u)]))"

text \<open>
  Modelled from the spec: \<^verbatim>\<open>s_cache.memoize\<close> (\<^verbatim>\<open>synapse/lib/cache.py\<close> is not
  among the sources). The spec has the decision memoized only on success, keyed by
  the exact ordered permission path, in an explicit map scoped to one query context:
  a call whose key is in the map returns the stored result without running the body;
  otherwise the body runs, a returned value is stored under the key, and a raised
  exception passes through with nothing stored. The spec gives the map no capacity
  and no eviction, so the decorator's \<^verbatim>\<open>size=100\<close> argument has no counterpart here.
\<close>

definition memoize :: "(runtime \<Rightarrow> string list \<Rightarrow> error + unit) \<Rightarrow> runtime \<Rightarrow> string list \<Rightarrow> (error + unit) \<times> runtime" where
  "memoize f rt args =
     (case memo rt args of
        Some v \<Rightarrow> (Inr v, rt)
      | None \<Rightarrow>
          (case f rt args of
             Inr v \<Rightarrow> (Inr v, rt\<lparr>memo := (memo rt)(args \<mapsto> v)\<rparr>)
           | Inl e \<Rightarrow> (Inl e, rt)))"

definition allowed :: "runtime \<Rightarrow> string list \<Rightarrow> (error + unit) \<times> runtime" where
  "allowed rt args = memoize allowed_body rt args"

text \<open>
  A query makes its permission checks one after another on the same runtime;
  \<open>allowed_seq\<close> threads the runtime through a list of checks and returns each
  outcome.
\<close>

fun allowed_seq :: "runtime \<Rightarrow> string list list \<Rightarrow> (error + unit) list \<times> runtime" where
  "allowed_seq rt [] = ([], rt)"
| "allowed_seq rt (args # rest) =
     (case allowed rt args of
        (r, rt') \<Rightarrow> (case allowed_seq rt' rest of (rs, rt'') \<Rightarrow> (r # rs, rt'')))"

section \<open>NoderefsCmd\<close>

subsection \<open>Nodes, the model and the snap\<close>

text \<open>
  Property values: \<^verbatim>\<open>None\<close>, integers, strings, and the pairs that hold an ndef
  \<^verbatim>\<open>(form, valu)\<close> or a node property \<^verbatim>\<open>(prop, valu)\<close>.
\<close>

datatype valu = VNone | VInt int | VStr string | VPair string valu

text \<open>
  A type of the model, as far as \<^verbatim>\<open>getRefs\<close> looks at it: its name and which of the
  classes \<^verbatim>\<open>s_types.Ndef\<close>, \<^verbatim>\<open>s_types.NodeProp\<close>, \<^verbatim>\<open>s_types.Edge\<close> it is an
  instance of.
\<close>

datatype tclass = Ndef | NodeProp | Edge | Other

record stype =
  tname :: string
  tclass :: tclass

record modelprop =
  pfull :: string
  ptype :: stype

record form =
  fname :: string
  ftype :: stype
  fprops :: "(string \<times> modelprop) list"

type_synonym buid = nat

type_synonym tagvalu = "(int \<times> int) option"

record node =
  buid :: buid
  ndef :: "string \<times> valu"
  props :: "(string \<times> valu) list"
  tags :: "(string \<times> tagvalu) list"
  form :: form

text \<open>
  The storage and model collaborators, through the calls \<^verbatim>\<open>getRefs\<close> makes:
  \<^verbatim>\<open>snap.getNodeByNdef(ndef)\<close>, \<^verbatim>\<open>snap.getNodesBy(full, valu)\<close>,
  \<^verbatim>\<open>snap.model.forms.get(name)\<close>, \<^verbatim>\<open>snap.model.propsbytype.get(name, ())\<close> and
  \<^verbatim>\<open>snap.model.props.values()\<close>. They are parameters of the traversal.
\<close>

record snap =
  getNodeByNdef :: "valu \<Rightarrow> node option"
  getNodesBy :: "string \<Rightarrow> valu \<Rightarrow> node list"
  model_forms :: "string \<Rightarrow> form option"
  model_propsbytype :: "string \<Rightarrow> modelprop list"
  model_props :: "modelprop list"

text \<open>
  Modelled from the spec: \<^verbatim>\<open>Path.fork\<close> and \<^verbatim>\<open>Node.get\<close> of
  \<^verbatim>\<open>synapse/lib/node.py\<close>, which is not among the sources. A path is the ordered
  sequence of visited nodes and forking appends one hop, leaving the parent as it
  was; \<^verbatim>\<open>get\<close> reads the node's property mapping and is \<^verbatim>\<open>None\<close> for a property
  the node does not have.
\<close>

type_synonym path = "node list"

definition fork :: "path \<Rightarrow> node \<Rightarrow> path" where
  "fork p n = p @ [n]"

definition node_get :: "node \<Rightarrow> string \<Rightarrow> valu" where
  "node_get n name = (case map_of (props n) name of None \<Rightarrow> VNone | Some v \<Rightarrow> v)"

definition ndef_valu :: "node \<Rightarrow> valu" where
  "ndef_valu n = VPair (fst (ndef n)) (snd (ndef n))"

text \<open>The parsed options of the command (\<^verbatim>\<open>self.opts\<close>).\<close>

record noderefs_opts =
  degrees :: int
  traverse_edge :: bool
  join :: bool
  omit_traversal_form :: "string list"
  omit_traversal_tag :: "string list"
  omit_form :: "string list"
  omit_tag :: "string list"
  unique :: bool

subsection \<open>getRefs\<close>

text \<open>
  \<^verbatim>\<open>getRefs\<close> is a generator; its model returns the candidates it yields, in order,
  and the exception that ended it, if one did. The only statement of \<^verbatim>\<open>getRefs\<close>
  itself that can raise is the unpacking \<^verbatim>\<open>qprop, qvalu = valu\<close>.

  The body of the first loop, for one item \<^verbatim>\<open>(name, valu)\<close> of
  \<^verbatim>\<open>srcnode.props.items()\<close>:
  \<^verbatim>\<open>
  prop = srcnode.form.props.get(name)
  if prop is None:
      continue
  if isinstance(prop.type, s_types.Ndef):
      pivo = self.snap.getNodeByNdef(valu)
      if pivo is None:
          continue
      yield pivo, srcpath.fork(pivo)
      continue
  if isinstance(prop.type, s_types.NodeProp):
      qprop, qvalu = valu
      for pivo in self.snap.getNodesBy(qprop, qvalu):
          yield pivo, srcpath.fork(pivo)
  form = self.snap.model.forms.get(prop.type.name)
  if form is None:
      continue
  pivo = self.snap.getNodeByNdef((form.name, valu))
  if pivo is None:
      continue
  yield pivo, srcpath.fork(pivo)
  \<close>
\<close>

definition pivot_form :: "snap \<Rightarrow> path \<Rightarrow> modelprop \<Rightarrow> valu \<Rightarrow> (node \<times> path) list" where
  "pivot_form s srcpath prp valu =
     (case model_forms s (tname (ptype prp)) of
        None \<Rightarrow> []
      | Some frm \<Rightarrow>
          (case getNodeByNdef s (VPair (fname frm) valu) of
             None \<Rightarrow> []
           | Some pivo \<Rightarrow> [(pivo, fork srcpath pivo)]))"

text \<open>
  The unpacking \<^verbatim>\<open>qprop, qvalu = valu\<close>: a pair unpacks to its components, a string of
  two characters to the two characters; a string of any other length raises
  \<^verbatim>\<open>ValueError\<close> (wrong number of values), and a value that is not iterable
  (\<^verbatim>\<open>None\<close>, an integer) raises \<^verbatim>\<open>TypeError\<close>.
\<close>

definition unpack2 :: "valu \<Rightarrow> error + (string \<times> valu)" where
  "unpack2 valu =
     (case valu of
        VPair qprop qvalu \<Rightarrow> Inr (qprop, qvalu)
      | VStr [a, b] \<Rightarrow> Inr ([a], VStr [b])
      | VStr _ \<Rightarrow> Inl ValueError
      | VNone \<Rightarrow> Inl TypeError
      | VInt _ \<Rightarrow> Inl TypeError)"

definition pivot_out :: "snap \<Rightarrow> node \<Rightarrow> path \<Rightarrow> string \<times> valu \<Rightarrow> (node \<times> path) list \<times> error option" where
  "pivot_out s srcnode srcpath item =
     (case item of (name, valu) \<Rightarrow>
        (case map_of (fprops (form srcnode)) name of
           None \<Rightarrow> ([], None)
         | Some prp \<Rightarrow>
             if tclass (ptype prp) = Ndef then
               (case getNodeByNdef s valu of
                  None \<Rightarrow> ([], None)
                | Some pivo \<Rightarrow> ([(pivo, fork srcpath pivo)], None))
             else if tclass (ptype prp) = NodeProp then
               (case unpack2 valu of
                  Inl e \<Rightarrow> ([], Some e)
                | Inr (qprop, qvalu) \<Rightarrow>
                    (map (\<lambda>pivo. (pivo, fork srcpath pivo)) (getNodesBy s qprop qvalu)
                       @ pivot_form s srcpath prp valu, None))
             else (pivot_form s srcpath prp valu, None)))"

fun getRefs_out :: "snap \<Rightarrow> node \<Rightarrow> path \<Rightarrow> (string \<times> valu) list \<Rightarrow> (node \<times> path) list \<times> error option" where
  "getRefs_out s srcnode srcpath [] = ([], None)"
| "getRefs_out s srcnode srcpath (item # items) =
     (case pivot_out s srcnode srcpath item of
        (cs, Some e) \<Rightarrow> (cs, Some e)
      | (cs, None) \<Rightarrow>
          (case getRefs_out s srcnode srcpath items of (cs', e) \<Rightarrow> (cs @ cs', e)))"

text \<open>
  \<^verbatim>\<open>
  name, valu = srcnode.ndef
  for prop in self.snap.model.propsbytype.get(name, ()):
      for pivo in self.snap.getNodesBy(prop.full, valu):
          yield pivo, srcpath.fork(pivo)
  \<close>
\<close>

definition getRefs_in :: "snap \<Rightarrow> node \<Rightarrow> path \<Rightarrow> (node \<times> path) list" where
  "getRefs_in s srcnode srcpath =
     (case ndef srcnode of (name, valu) \<Rightarrow>
        concat (map (\<lambda>prp. map (\<lambda>pivo. (pivo, fork srcpath pivo)) (getNodesBy s (pfull prp) valu))
                    (model_propsbytype s name)))"

text \<open>
  The body of the last loop, for one \<^verbatim>\<open>pivo\<close> of
  \<^verbatim>\<open>self.snap.getNodesBy(prop.full, srcnode.ndef)\<close>:
  \<^verbatim>\<open>
  if self.opts.traverse_edge and isinstance(pivo.form.type, s_types.Edge):
      if srcnode.ndef == pivo.get('n1'):
          npivo = self.snap.getNodeByNdef(pivo.get('n2'))
          if npivo is None:
              continue
          yield npivo, srcpath.fork(npivo)
          continue
      if srcnode.ndef == pivo.get('n2'):
          npivo = self.snap.getNodeByNdef(pivo.get('n1'))
          if npivo is None:
              continue
          yield npivo, srcpath.fork(npivo)
          continue
      continue
  yield pivo, srcpath.fork(pivo)
  \<close>
\<close>

definition pivot_ndef :: "snap \<Rightarrow> noderefs_opts \<Rightarrow> node \<Rightarrow> path \<Rightarrow> node \<Rightarrow> (node \<times> path) list" where
  "pivot_ndef s opts srcnode srcpath pivo =
     (if traverse_edge opts \<and> tclass (ftype (form pivo)) = Edge then
        (if ndef_valu srcnode = node_get pivo ''n1'' then
           (case getNodeByNdef s (node_get pivo ''n2'') of
              None \<Rightarrow> []
            | Some npivo \<Rightarrow> [(npivo, fork srcpath npivo)])
         else if ndef_valu srcnode = node_get pivo ''n2'' then
           (case getNodeByNdef s (node_get pivo ''n1'') of
              None \<Rightarrow> []
            | Some npivo \<Rightarrow> [(npivo, fork srcpath npivo)])
         else [])
      else [(pivo, fork srcpath pivo)])"

definition getRefs_ndef :: "snap \<Rightarrow> noderefs_opts \<Rightarrow> modelprop list \<Rightarrow> node \<Rightarrow> path \<Rightarrow> (node \<times> path) list" where
  "getRefs_ndef s opts ndef_props srcnode srcpath =
     concat (map (\<lambda>prp. concat (map (pivot_ndef s opts srcnode srcpath)
                                      (getNodesBy s (pfull prp) (ndef_valu srcnode))))
                 ndef_props)"

definition getRefs :: "snap \<Rightarrow> noderefs_opts \<Rightarrow> modelprop list \<Rightarrow> node \<Rightarrow> path \<Rightarrow> (node \<times> path) list \<times> error option" where
  "getRefs s opts ndef_props srcnode srcpath =
     (case getRefs_out s srcnode srcpath (props srcnode) of
        (cs, Some e) \<Rightarrow> (cs, Some e)
      | (cs, None) \<Rightarrow>
          (cs @ getRefs_in s srcnode srcpath @ getRefs_ndef s opts ndef_props srcnode srcpath, None))"

subsection \<open>doRefs\<close>

text \<open>
  The state of one traversal: the \<^verbatim>\<open>visited\<close> set, the \<^verbatim>\<open>newqueue\<close> of the round,
  the items yielded so far, the nodes \<^verbatim>\<open>getRefs\<close> has been called on so far, and the
  exception that ended the traversal, if one did.
\<close>

record trav =
  visited :: "buid set"
  newqueue :: "(node \<times> path) list"
  yielded :: "(node \<times> path) list"
  expanded :: "node list"
  raised :: "error option"

definition omitted :: "noderefs_opts \<Rightarrow> node \<Rightarrow> bool" where
  "omitted opts pnode \<longleftrightarrow>
     fst (ndef pnode) \<in> set (omit_form opts)
     \<or> set (omit_tag opts) \<inter> set (map fst (tags pnode)) \<noteq> {}"

definition omitted_traversal :: "noderefs_opts \<Rightarrow> node \<Rightarrow> bool" where
  "omitted_traversal opts pnode \<longleftrightarrow>
     fst (ndef pnode) \<in> set (omit_traversal_form opts)
     \<or> set (omit_traversal_tag opts) \<inter> set (map fst (tags pnode)) \<noteq> {}"

text \<open>
  The loop over the candidates of one source:
  \<^verbatim>\<open>
  for pnode, ppath in self.getRefs(snode, spath):
      if pnode.buid in visited:
          continue
      visited.add(pnode.buid)
      if pnode.ndef[0] in self.omit_forms:
          continue
      if self.omit_tags.intersection(set(pnode.tags.keys())):
          continue
      yield  pnode, ppath
      if pnode.ndef[0] in self.omit_traversal_forms:
          continue
      if self.omit_traversal_tags.intersection(set(pnode.tags.keys())):
          continue
      newqueue.append((pnode, ppath))
  \<close>
\<close>

fun doRefs_for :: "noderefs_opts \<Rightarrow> (node \<times> path) list \<Rightarrow> trav \<Rightarrow> trav" where
  "doRefs_for opts [] t = t"
| "doRefs_for opts ((pnode, ppath) # rest) t =
     (if buid pnode \<in> visited t then doRefs_for opts rest t
      else if omitted opts pnode then
        doRefs_for opts rest (t\<lparr>visited := insert (buid pnode) (visited t)\<rparr>)
      else if omitted_traversal opts pnode then
        doRefs_for opts rest
          (t\<lparr>visited := insert (buid pnode) (visited t), yielded := yielded t @ [(pnode, ppath)]\<rparr>)
      else
        doRefs_for opts rest
          (t\<lparr>visited := insert (buid pnode) (visited t), yielded := yielded t @ [(pnode, ppath)],
             newqueue := newqueue t @ [(pnode, ppath)]\<rparr>))"

text \<open>
  The inner \<^verbatim>\<open>while True\<close> loop. \<^verbatim>\<open>srcqueue.pop()\<close> takes the item appended last, so
  the loop is given the queue in that order, right end first; it ends when the queue
  is empty (\<^verbatim>\<open>IndexError\<close>), or when \<^verbatim>\<open>getRefs\<close> raises.
\<close>

fun doRefs_pop :: "snap \<Rightarrow> noderefs_opts \<Rightarrow> modelprop list \<Rightarrow> (node \<times> path) list \<Rightarrow> trav \<Rightarrow> trav" where
  "doRefs_pop s opts ndef_props [] t = t"
| "doRefs_pop s opts ndef_props ((snode, spath) # srcqueue) t =
     (case getRefs s opts ndef_props snode spath of
        (cands, e) \<Rightarrow>
          (let t' = doRefs_for opts cands (t\<lparr>expanded := expanded t @ [snode]\<rparr>) in
           case e of
             Some x \<Rightarrow> t'\<lparr>raised := Some x\<rparr>
           | None \<Rightarrow> doRefs_pop s opts ndef_props srcqueue t'))"

text \<open>
  The outer loop:
  \<^verbatim>\<open>
  while degrees:
      degrees = degrees - 1
      newqueue = collections.deque()
      ...
              srcqueue = newqueue
              break
  \<close>
  It runs while \<open>degrees\<close> is not zero, so from a negative value it never ends; the
  model returns \<open>None\<close> for a run that does not end.
\<close>

partial_function (option) doRefs_while ::
  "snap \<Rightarrow> noderefs_opts \<Rightarrow> modelprop list \<Rightarrow> int \<Rightarrow> (node \<times> path) list \<Rightarrow> trav \<Rightarrow> trav option" where
  "doRefs_while s opts ndef_props degs srcqueue t =
     (if degs = 0 then Some t
      else (let t' = doRefs_pop s opts ndef_props (rev srcqueue) (t\<lparr>newqueue := []\<rparr>) in
            if raised t' \<noteq> None then Some t'
            else doRefs_while s opts ndef_props (degs - 1) (newqueue t') t'))"

definition doRefs :: "snap \<Rightarrow> noderefs_opts \<Rightarrow> modelprop list \<Rightarrow> node \<Rightarrow> path \<Rightarrow> buid set \<Rightarrow> trav option" where
  "doRefs s opts ndef_props srcnode srcpath vis =
     doRefs_while s opts ndef_props (degrees opts) [(srcnode, srcpath)]
       \<lparr>visited = vis, newqueue = [], yielded = [], expanded = [], raised = None\<rparr>"

subsection \<open>runStormCmd\<close>

text \<open>
  \<^verbatim>\<open>
  for node, path in genr:
      if self.opts.join:
          yield node, path
      if self.opts.unique is False:
          visited = set()
      visited.add(node.buid)
      yield from self.doRefs(node, path, visited)
  \<close>
  The result keeps what the command yields for each upstream item as one block: the
  item itself first when \<^verbatim>\<open>join\<close> is set, then what \<^verbatim>\<open>doRefs\<close> yields. The stream
  the command yields is the concatenation of the blocks.
\<close>

record noderefs_result =
  blocks :: "(node \<times> path) list list"
  failed :: "error option"

fun noderefs_for ::
  "snap \<Rightarrow> noderefs_opts \<Rightarrow> modelprop list \<Rightarrow> (node \<times> path) list \<Rightarrow> buid set \<Rightarrow> noderefs_result option" where
  "noderefs_for s opts ndef_props [] vis = Some \<lparr>blocks = [], failed = None\<rparr>"
| "noderefs_for s opts ndef_props ((node, path) # genr) vis =
     (case doRefs s opts ndef_props node path
             (insert (buid node) (if \<not> unique opts then {} else vis)) of
        None \<Rightarrow> None
      | Some t \<Rightarrow>
          (let block = (if join opts then [(node, path)] else []) @ yielded t in
           case raised t of
             Some e \<Rightarrow> Some \<lparr>blocks = [block], failed = Some e\<rparr>
           | None \<Rightarrow>
               (case noderefs_for s opts ndef_props genr (visited t) of
                  None \<Rightarrow> None
                | Some r \<Rightarrow> Some (r\<lparr>blocks := block # blocks r\<rparr>))))"

text \<open>
  \<^verbatim>\<open>
  self.ndef_props = [prop for prop in self.snap.model.props.values()
                     if isinstance(prop.type, s_types.Ndef)]
  if self.opts.degrees < 1:
      raise s_exc.BadOperArg(mesg='degrees must be greater than or equal to 1', arg='degrees')
  visited = set()
  \<close>
  The command is a generator, so the exception is raised when its consumer asks for
  the first item. The result is that of a consumer that drains the command.
\<close>

definition ndef_props_of :: "snap \<Rightarrow> modelprop list" where
  "ndef_props_of s = filter (\<lambda>prp. tclass (ptype prp) = Ndef) (model_props s)"

definition NoderefsCmd_runStormCmd ::
  "snap \<Rightarrow> noderefs_opts \<Rightarrow> (node \<times> path) list \<Rightarrow> noderefs_result option" where
  "NoderefsCmd_runStormCmd s opts genr =
     (if degrees opts < 1 then
        Some \<lparr>blocks = [],
              failed = Some (BadOperArg [(''mesg'', ''degrees must be greater than or equal to 1''),
                                         (''arg'', ''degrees'')])\<rparr>
      else noderefs_for s opts (ndef_props_of s) genr {})"

text \<open>The part of a block that the traversal yielded.\<close>

definition traversed :: "noderefs_opts \<Rightarrow> (node \<times> path) list \<Rightarrow> (node \<times> path) list" where
  "traversed opts block = (if join opts then tl block else block)"

section \<open>Notions used to state the properties of the traversal\<close>

text \<open>The buids of a list of yielded items, in order.\<close>

definition ybuids :: "(node \<times> path) list \<Rightarrow> buid list" where
  "ybuids ys = map (\<lambda>x. buid (fst x)) ys"

text \<open>
  The nodes \<^verbatim>\<open>getRefs\<close> yields for a source node, in order: its adjacency. The
  path handed to \<^verbatim>\<open>getRefs\<close> only decides the forked paths, not the nodes.
\<close>

definition refs :: "snap \<Rightarrow> noderefs_opts \<Rightarrow> modelprop list \<Rightarrow> node \<Rightarrow> node list" where
  "refs s opts ndef_props n = map fst (fst (getRefs s opts ndef_props n []))"

text \<open>The candidates \<open>cs\<close> with their paths forked from \<open>sp\<close> instead.\<close>

definition refork :: "path \<Rightarrow> (node \<times> path) list \<Rightarrow> (node \<times> path) list" where
  "refork sp cs = map (\<lambda>x. (fst x, fork sp (fst x))) cs"


text \<open>
  The invariant of one traversal that started with the visited set \<open>V0\<close>: the set
  has only grown; what has been yielded is visited, was not in \<open>V0\<close>, has no buid
  twice and is not omitted; what is queued for the next round has been yielded and
  is not excluded from traversal.
\<close>

definition trav_inv :: "noderefs_opts \<Rightarrow> buid set \<Rightarrow> trav \<Rightarrow> bool" where
  "trav_inv opts V0 t \<longleftrightarrow>
     V0 \<subseteq> visited t
     \<and> set (ybuids (yielded t)) \<subseteq> visited t
     \<and> set (ybuids (yielded t)) \<inter> V0 = {}
     \<and> distinct (ybuids (yielded t))
     \<and> (\<forall>x \<in> set (yielded t). \<not> omitted opts (fst x))
     \<and> (\<forall>x \<in> set (newqueue t). x \<in> set (yielded t) \<and> \<not> omitted_traversal opts (fst x))"

text \<open>The outer loop for a non-negative number of rounds.\<close>

fun doRefs_rounds :: "snap \<Rightarrow> noderefs_opts \<Rightarrow> modelprop list \<Rightarrow> nat \<Rightarrow> (node \<times> path) list \<Rightarrow> trav \<Rightarrow> trav" where
  "doRefs_rounds s opts np 0 srcqueue t = t"
| "doRefs_rounds s opts np (Suc k) srcqueue t =
     (let t' = doRefs_pop s opts np (rev srcqueue) (t\<lparr>newqueue := []\<rparr>) in
      if raised t' \<noteq> None then t' else doRefs_rounds s opts np k (newqueue t') t')"

text \<open>
  A chain of hops: each node of the list is among the nodes \<^verbatim>\<open>getRefs\<close> yields for the
  node before it.
\<close>

fun chain :: "snap \<Rightarrow> noderefs_opts \<Rightarrow> modelprop list \<Rightarrow> node list \<Rightarrow> bool" where
  "chain s opts np [] = True"
| "chain s opts np [a] = True"
| "chain s opts np (a # b # r) = (b \<in> set (refs s opts np a) \<and> chain s opts np (b # r))"

text \<open>
  An item \<open>(n, p)\<close> lies \<open>k\<close> hops from the source \<open>(srcnode, srcpath)\<close>: its path is
  the source's path forked \<open>k\<close> times along a chain of hops that starts at the source
  node and ends at \<open>n\<close>.
\<close>

definition hops_from :: "snap \<Rightarrow> noderefs_opts \<Rightarrow> modelprop list \<Rightarrow> node \<Rightarrow> path \<Rightarrow> nat \<Rightarrow> node \<times> path \<Rightarrow> bool" where
  "hops_from s opts np srcnode srcpath k x \<longleftrightarrow>
     (\<exists>hs. snd x = srcpath @ hs \<and> length hs = k \<and> chain s opts np (srcnode # hs)
           \<and> last (srcnode # hs) = fst x)"

text \<open>
  In round \<open>r\<close>: what has been yielded lies between 1 and \<open>r\<close> hops from the
  source, and what is queued for the next round lies \<open>r\<close> hops from it.
\<close>

definition hop_inv :: "snap \<Rightarrow> noderefs_opts \<Rightarrow> modelprop list \<Rightarrow> node \<Rightarrow> path \<Rightarrow> nat \<Rightarrow> trav \<Rightarrow> bool" where
  "hop_inv s opts np srcnode srcpath r t \<longleftrightarrow>
     (\<forall>x \<in> set (yielded t). \<exists>j. 1 \<le> j \<and> j \<le> r \<and> hops_from s opts np srcnode srcpath j x)
     \<and> (\<forall>x \<in> set (newqueue t). hops_from s opts np srcnode srcpath r x)"

text \<open>
  Every node \<^verbatim>\<open>getRefs\<close> has been called on is the source node, or a node the
  traversal has yielded and that is not excluded from traversal.
\<close>

definition exp_inv :: "noderefs_opts \<Rightarrow> node \<Rightarrow> trav \<Rightarrow> bool" where
  "exp_inv opts srcnode t \<longleftrightarrow>
     (\<forall>n \<in> set (expanded t). n = srcnode \<or> (n \<in> fst ` set (yielded t) \<and> \<not> omitted_traversal opts n))"

text \<open>
  With \<open>C\<close> the candidates handled so far: each of them is visited, and every
  visited buid was visited at the start, or has been yielded, or is the buid of a
  candidate that was omitted.
\<close>

definition cov_inv :: "noderefs_opts \<Rightarrow> buid set \<Rightarrow> node set \<Rightarrow> trav \<Rightarrow> bool" where
  "cov_inv opts V0 C t \<longleftrightarrow>
     (\<forall>c \<in> C. buid c \<in> visited t)
     \<and> (\<forall>b \<in> visited t. b \<in> V0 \<or> b \<in> set (ybuids (yielded t)) \<or> (\<exists>c \<in> C. buid c = b \<and> omitted opts c))"

text \<open>
  Every item the traversal has yielded is excluded from traversal, or
  \<^verbatim>\<open>getRefs\<close> has been called on its node, or it waits in \<open>P\<close> or in the queue for
  the next round.
\<close>

definition pend_inv :: "noderefs_opts \<Rightarrow> (node \<times> path) set \<Rightarrow> trav \<Rightarrow> bool" where
  "pend_inv opts P t \<longleftrightarrow>
     (\<forall>x \<in> set (yielded t).
        omitted_traversal opts (fst x) \<or> fst x \<in> set (expanded t) \<or> x \<in> P \<or> x \<in> set (newqueue t))"

text \<open>The candidates of the nodes \<^verbatim>\<open>getRefs\<close> has been called on.\<close>

definition candidates :: "snap \<Rightarrow> noderefs_opts \<Rightarrow> modelprop list \<Rightarrow> trav \<Rightarrow> node set" where
  "candidates s opts np t = (\<Union>n \<in> set (expanded t). set (refs s opts np n))"

text \<open>The state in which \<^verbatim>\<open>doRefs\<close> starts.\<close>

definition trav_start :: "buid set \<Rightarrow> trav" where
  "trav_start vis = \<lparr>visited = vis, newqueue = [], yielded = [], expanded = [], raised = None\<rparr>"

text \<open>
  What one block owes its source: the block has no buid twice and starts with the
  source itself when \<^verbatim>\<open>join\<close> is set; the traversal's part of it does not hold the
  source's buid, and each of its items lies between 1 and \<open>k\<close> hops from the source.
\<close>

definition block_ok ::
  "snap \<Rightarrow> noderefs_opts \<Rightarrow> modelprop list \<Rightarrow> nat \<Rightarrow> node \<times> path \<Rightarrow> (node \<times> path) list \<Rightarrow> bool" where
  "block_ok s opts np k src block \<longleftrightarrow>
     distinct (ybuids block)
     \<and> buid (fst src) \<notin> set (ybuids (traversed opts block))
     \<and> (\<forall>x \<in> set (traversed opts block).
           \<exists>j. 1 \<le> j \<and> j \<le> k \<and> hops_from s opts np (fst src) (snd src) j x)
     \<and> (join opts \<longrightarrow> block \<noteq> [] \<and> hd block = src)"

text \<open>
  The shared scope: going through the blocks in order with the set \<open>seen\<close> of buids
  met so far (sources and traversal yields), the traversal's part of each block has
  no buid twice and none that is its own source's or was seen before.
\<close>

fun scoped :: "noderefs_opts \<Rightarrow> buid set \<Rightarrow> (node \<times> path) list \<Rightarrow> (node \<times> path) list list \<Rightarrow> bool" where
  "scoped opts seen genr [] = True"
| "scoped opts seen [] (b # bs) = False"
| "scoped opts seen (x # genr) (b # bs) =
     (distinct (ybuids (traversed opts b))
      \<and> set (ybuids (traversed opts b)) \<inter> insert (buid (fst x)) seen = {}
      \<and> scoped opts (insert (buid (fst x)) seen \<union> set (ybuids (traversed opts b))) genr bs)"

section \<open>MoveTagCmd\<close>

subsection \<open>The store\<close>

text \<open>
  A tag-definition (a \<^verbatim>\<open>syn:tag\<close> node), as far as the command reads and writes it:
  its \<^verbatim>\<open>doc\<close>, \<^verbatim>\<open>title\<close> and \<^verbatim>\<open>isnow\<close> properties, each \<^verbatim>\<open>None\<close> when unset.
\<close>

record tagdef =
  doc :: "string option"
  title :: "string option"
  isnow :: "string option"

text \<open>
  The store behind \<^verbatim>\<open>snap\<close>: the tag-definitions by tag name, in storage order, and
  the data nodes, whose \<open>tags\<close> hold their tag applications. Tag names are taken in
  normal form, so \<^verbatim>\<open>oldt.ndef[1]\<close> is the \<^verbatim>\<open>oldtag\<close> argument itself.
\<close>

record store =
  tagdefs :: "(string \<times> tagdef) list"
  nodes :: "node list"

text \<open>
  A tag lies in the tree of \<open>old\<close> when it is \<open>old\<close> itself or has \<open>old\<close> as a
  dotted-path prefix: \<open>old\<close>, a dot, and more.
\<close>

definition dotted_prefix :: "string \<Rightarrow> string \<Rightarrow> bool" where
  "dotted_prefix a b \<longleftrightarrow> take (Suc (length a)) b = a @ ''.''"

definition in_tree :: "string \<Rightarrow> string \<Rightarrow> bool" where
  "in_tree old t \<longleftrightarrow> t = old \<or> dotted_prefix old t"

text \<open>
  Modelled from the spec: the storage collaborator (\<^verbatim>\<open>synapse/lib/snap.py\<close>,
  \<^verbatim>\<open>synapse/lib/node.py\<close> are not among the sources), through the calls the command
  makes.
  \<^item> \<^verbatim>\<open>snap.addNode('syn:tag', name)\<close> returns the tag-definition of that name,
    creating it, with nothing set, if it is absent.
  \<^item> \<^verbatim>\<open>snap.getNodesBy('syn:tag', oldtag, cmpr='^=')\<close> lifts every existing
    tag-definition whose name equals \<^verbatim>\<open>oldtag\<close> or has it as a dotted-path prefix.
    The lift is read when the loop starts.
  \<^item> \<^verbatim>\<open>snap.getNodesBy('#oldtag')\<close> lifts every node carrying \<^verbatim>\<open>oldtag\<close>, matched
    by prefix across the whole subtree.
  \<^item> \<^verbatim>\<open>node.get(prop)\<close> reads and \<^verbatim>\<open>node.set(prop, valu)\<close> writes a property of a
    tag-definition; \<^verbatim>\<open>node.delTag(name)\<close> removes the application of \<^verbatim>\<open>name\<close> and
    \<^verbatim>\<open>node.addTag(name, valu)\<close> adds the application of \<^verbatim>\<open>name\<close> with that value,
    a node holding one application per tag name.
\<close>

definition addNode :: "store \<Rightarrow> string \<Rightarrow> store \<times> string" where
  "addNode st name =
     (case map_of (tagdefs st) name of
        None \<Rightarrow> (st\<lparr>tagdefs := tagdefs st @ [(name, \<lparr>doc = None, title = None, isnow = None\<rparr>)]\<rparr>, name)
      | Some td \<Rightarrow> (st, name))"

definition getNodesBy_pref :: "store \<Rightarrow> string \<Rightarrow> string list" where
  "getNodesBy_pref st oldtag = filter (in_tree oldtag) (map fst (tagdefs st))"

definition carries :: "string \<Rightarrow> node \<Rightarrow> bool" where
  "carries oldtag n \<longleftrightarrow> list_ex (in_tree oldtag) (map fst (tags n))"

definition getNodesBy_tag :: "store \<Rightarrow> string \<Rightarrow> buid list" where
  "getNodesBy_tag st oldtag = map buid (filter (carries oldtag) (nodes st))"

definition syntag_get :: "store \<Rightarrow> string \<Rightarrow> (tagdef \<Rightarrow> string option) \<Rightarrow> string option" where
  "syntag_get st name prp = (case map_of (tagdefs st) name of None \<Rightarrow> None | Some td \<Rightarrow> prp td)"

definition syntag_set :: "store \<Rightarrow> string \<Rightarrow> (tagdef \<Rightarrow> tagdef) \<Rightarrow> store" where
  "syntag_set st name f =
     (case map_of (tagdefs st) name of
        None \<Rightarrow> st
      | Some td \<Rightarrow> st\<lparr>tagdefs := AList.update name (f td) (tagdefs st)\<rparr>)"

definition delTag :: "string \<Rightarrow> node \<Rightarrow> node" where
  "delTag name n = n\<lparr>tags := AList.delete name (tags n)\<rparr>"

definition addTag :: "string \<Rightarrow> tagvalu \<Rightarrow> node \<Rightarrow> node" where
  "addTag name valu n = n\<lparr>tags := AList.update name valu (tags n)\<rparr>"

subsection \<open>runStormCmd\<close>

text \<open>
  The body of the first loop, for one lifted tag-definition \<^verbatim>\<open>node\<close> named \<open>tagstr\<close>:
  \<^verbatim>\<open>
  tagstr = node.ndef[1]
  if tagstr == oldstr: # special case for exact match
      node.set('isnow', newstr)
      continue
  newtag = newstr + tagstr[oldsize:]
  newnode = snap.addNode('syn:tag', newtag)
  olddoc = node.get('doc')
  if olddoc is not None:
      newnode.set('doc', olddoc)
  oldtitle = node.get('title')
  if oldtitle is not None:
      newnode.set('title', oldtitle)
  retag[tagstr] = newtag
  node.set('isnow', newtag)
  \<close>
  The state it works on is the store and the \<^verbatim>\<open>retag\<close> dictionary. \<open>copy_prop\<close>
  is the pair of statements that reads a property of \<^verbatim>\<open>node\<close> and, unless it is
  \<^verbatim>\<open>None\<close>, sets it on \<^verbatim>\<open>newnode\<close>.
\<close>

definition copy_prop ::
  "store \<Rightarrow> string \<Rightarrow> string \<Rightarrow> (tagdef \<Rightarrow> string option) \<Rightarrow> (string \<Rightarrow> tagdef \<Rightarrow> tagdef) \<Rightarrow> store" where
  "copy_prop st tagstr newtag prp put =
     (case syntag_get st tagstr prp of
        None \<Rightarrow> st
      | Some old \<Rightarrow> syntag_set st newtag (put old))"

definition isnow_step ::
  "string \<Rightarrow> string \<Rightarrow> nat \<Rightarrow> store \<times> (string \<rightharpoonup> string) \<Rightarrow> string \<Rightarrow> store \<times> (string \<rightharpoonup> string)" where
  "isnow_step oldstr newstr oldsize sr tagstr =
     (case sr of (st, retag) \<Rightarrow>
        if tagstr = oldstr then (syntag_set st tagstr (\<lambda>td. td\<lparr>isnow := Some newstr\<rparr>), retag)
        else
          (let newtag = newstr @ drop oldsize tagstr;
               st1 = fst (addNode st newtag);
               st2 = copy_prop st1 tagstr newtag doc (\<lambda>olddoc td. td\<lparr>doc := Some olddoc\<rparr>);
               st3 = copy_prop st2 tagstr newtag title (\<lambda>oldtitle td. td\<lparr>title := Some oldtitle\<rparr>)
           in (syntag_set st3 tagstr (\<lambda>td. td\<lparr>isnow := Some newtag\<rparr>), retag(tagstr \<mapsto> newtag))))"

text \<open>
  The body of the second loop, for one lifted node:
  \<^verbatim>\<open>
  tags = list(node.tags.items())
  tags.sort(reverse=True)
  for name, valu in tags:
      newt = retag.get(name)
      if newt is None:
          continue
      node.delTag(name)
      node.addTag(newt, valu=valu)
  \<close>
  The items of a dictionary have distinct names, so sorting them in reverse is
  sorting them by name and reversing.
\<close>

definition retag_item :: "(string \<rightharpoonup> string) \<Rightarrow> node \<Rightarrow> string \<times> tagvalu \<Rightarrow> node" where
  "retag_item retag n item =
     (case item of (name, valu) \<Rightarrow>
        (case retag name of
           None \<Rightarrow> n
         | Some newt \<Rightarrow> addTag newt valu (delTag name n)))"

definition retag_node :: "(string \<rightharpoonup> string) \<Rightarrow> node \<Rightarrow> node" where
  "retag_node retag n = foldl (retag_item retag) n (rev (sort_key fst (tags n)))"

definition retag_step :: "(string \<rightharpoonup> string) \<Rightarrow> store \<times> nat \<Rightarrow> buid \<Rightarrow> store \<times> nat" where
  "retag_step retag sc b =
     (case sc of (st, count) \<Rightarrow>
        (st\<lparr>nodes := map (\<lambda>n. if buid n = b then retag_node retag n else n) (nodes st)\<rparr>,
         count + 1))"

text \<open>
  \<^verbatim>\<open>
  oldt = snap.addNode('syn:tag', self.opts.oldtag)
  oldstr = oldt.ndef[1]
  oldsize = len(oldstr)
  newt = snap.addNode('syn:tag', self.opts.newtag)
  newstr = newt.ndef[1]
  retag = {oldstr: newstr}
  for node in snap.getNodesBy('syn:tag', self.opts.oldtag, cmpr='^='):
      ...
  count = 0
  for node in snap.getNodesBy(f'#{oldstr}'):
      count += 1
      ...
  snap.printf(f'moved tags on {count} nodes.')
  for node, path in genr:
      yield node, path
  \<close>
  \<open>movetag_defs\<close> is the command up to the end of the first loop; the result of the
  command is the store it leaves, the lines it prints and what it yields.
\<close>

definition movetag_defs :: "store \<Rightarrow> string \<Rightarrow> string \<Rightarrow> store \<times> (string \<rightharpoonup> string)" where
  "movetag_defs st oldtag newtag =
     (case addNode st oldtag of (st1, oldstr) \<Rightarrow>
      case addNode st1 newtag of (st2, newstr) \<Rightarrow>
        foldl (isnow_step oldstr newstr (length oldstr)) (st2, [oldstr \<mapsto> newstr])
              (getNodesBy_pref st2 oldtag))"

definition MoveTagCmd_runStormCmd ::
  "store \<Rightarrow> string \<Rightarrow> string \<Rightarrow> 'a list \<Rightarrow> store \<times> string list \<times> 'a list" where
  "MoveTagCmd_runStormCmd st oldtag newtag genr =
     (case movetag_defs st oldtag newtag of (st3, retag) \<Rightarrow>
      case foldl (retag_step retag) (st3, 0) (getNodesBy_tag st3 oldtag) of (st4, count) \<Rightarrow>
        (st4, [''moved tags on '' @ str_of_nat count @ '' nodes.''], genr))"

text \<open>The store the command leaves.\<close>

definition movetag :: "store \<Rightarrow> string \<Rightarrow> string \<Rightarrow> store" where
  "movetag st oldtag newtag = fst (MoveTagCmd_runStormCmd st oldtag newtag ([] :: unit list))"

section \<open>Notions used to state the properties of the tag rename\<close>

text \<open>The name a tag of the tree of \<open>old\<close> is renamed to.\<close>

definition renamed :: "string \<Rightarrow> string \<Rightarrow> string \<Rightarrow> string" where
  "renamed old new t = new @ drop (length old) t"

text \<open>
  The first loop has nothing left to do for the tag-definition \<open>t\<close>: its renamed
  definition exists and holds the \<^verbatim>\<open>doc\<close> and \<^verbatim>\<open>title\<close> that \<open>t\<close> has, and
  \<^verbatim>\<open>isnow\<close> of \<open>t\<close> is the renamed name.
\<close>

definition settled :: "string \<Rightarrow> string \<Rightarrow> store \<Rightarrow> string \<Rightarrow> bool" where
  "settled old new st t \<longleftrightarrow>
     (if t = old then
        (case map_of (tagdefs st) t of None \<Rightarrow> True | Some td \<Rightarrow> isnow td = Some new)
      else
        (case map_of (tagdefs st) (renamed old new t) of
           None \<Rightarrow> False
         | Some tdn \<Rightarrow>
             (case map_of (tagdefs st) t of
                None \<Rightarrow> True
              | Some td \<Rightarrow>
                  (doc td = None \<or> doc tdn = doc td)
                  \<and> (title td = None \<or> title tdn = title td)
                  \<and> isnow td = Some (renamed old new t))))"

text \<open>No tag the node carries is a key of \<^verbatim>\<open>retag\<close>.\<close>

definition clean :: "(string \<rightharpoonup> string) \<Rightarrow> node \<Rightarrow> bool" where
  "clean r n \<longleftrightarrow> (\<forall>name \<in> fst ` set (tags n). r name = None)"

text \<open>
  The names of the tag-definitions the first loop goes through: the names in the
  tree of \<open>old\<close> among the tag-definitions there are once those of \<open>old\<close> and \<open>new\<close>
  exist.
\<close>

definition tree_defs :: "store \<Rightarrow> string \<Rightarrow> string \<Rightarrow> string set" where
  "tree_defs st old new = set (filter (in_tree old) (map fst (tagdefs st) @ [old, new]))"

text \<open>
  The tag-definition a prefix match \<open>t\<close> is renamed to, as the first loop leaves it
  when it started from the store \<open>st\<close> and nothing else wrote that definition:
  \<^verbatim>\<open>doc\<close> and \<^verbatim>\<open>title\<close> are those of \<open>t\<close> where \<open>t\<close> has them, and everything else is
  what the renamed definition held before, nothing when it did not exist.
\<close>

definition renamed_tagdef :: "string \<Rightarrow> string \<Rightarrow> store \<Rightarrow> string \<Rightarrow> tagdef" where
  "renamed_tagdef old new st t =
     \<lparr>doc = (case syntag_get st t doc of
               Some d \<Rightarrow> Some d
             | None \<Rightarrow> syntag_get st (renamed old new t) doc),
      title = (case syntag_get st t title of
                 Some d \<Rightarrow> Some d
               | None \<Rightarrow> syntag_get st (renamed old new t) title),
      isnow = syntag_get st (renamed old new t) isnow\<rparr>"

text \<open>The entries of an association list that are the last with their key.\<close>

fun lastocc :: "('k \<times> 'v) list \<Rightarrow> ('k \<times> 'v) list" where
  "lastocc [] = []"
| "lastocc (x # xs) = (if fst x \<in> fst ` set xs then lastocc xs else x # lastocc xs)"

text \<open>
  The invariant of the first loop, started from the store \<open>st0\<close>, over names \<open>T\<close> of
  which no two interfere, with \<open>G\<close> the names it has gone through: the \<^verbatim>\<open>doc\<close> and
  \<^verbatim>\<open>title\<close> of every name are what they were, and the renamed definition of every
  prefix match is what \<open>renamed_tagdef\<close> describes, or, if the loop has not come
  to that match yet, what it was.
\<close>

definition defs_inv :: "string \<Rightarrow> string \<Rightarrow> string set \<Rightarrow> string set \<Rightarrow> store \<Rightarrow> store \<Rightarrow> bool" where
  "defs_inv old new T G st0 st \<longleftrightarrow>
     (\<forall>t \<in> T. syntag_get st t doc = syntag_get st0 t doc
              \<and> syntag_get st t title = syntag_get st0 t title)
     \<and> (\<forall>t \<in> T. t \<noteq> old \<longrightarrow>
           map_of (tagdefs st) (renamed old new t) = Some (renamed_tagdef old new st0 t)
           \<or> (t \<notin> G \<and> map_of (tagdefs st) (renamed old new t) = map_of (tagdefs st0) (renamed old new t)))"

section \<open>Example data\<close>

text \<open>
  Two runtimes: one whose principal \<^verbatim>\<open>visi\<close> is not administrative and is allowed
  only the path \<^verbatim>\<open>foo.bar\<close>, one whose principal \<^verbatim>\<open>root\<close> is administrative with
  no rule of its own.
\<close>

definition visi :: principal where
  "visi = \<lparr>uname = ''visi'', admin = False, uallowed = (\<lambda>p. p = [''foo'', ''bar''])\<rparr>"

definition root :: principal where
  "root = \<lparr>uname = ''root'', admin = True, uallowed = (\<lambda>p. False)\<rparr>"

definition runt_of :: "principal \<Rightarrow> runtime" where
  "runt_of u = \<lparr>user = Some u, canceled = False, elevated = False, memo = Map.empty\<rparr>"


text \<open>
  A small graph: the node \<open>nodeN\<close> of form \<^verbatim>\<open>inet:ipv4\<close> and the node \<open>nodeM\<close> of
  form \<^verbatim>\<open>inet:dns:a\<close>, whose property \<^verbatim>\<open>ipv4\<close> holds the value of \<open>nodeN\<close>. The
  model knows both forms and indexes \<^verbatim>\<open>inet:dns:a:ipv4\<close> under the type
  \<^verbatim>\<open>inet:ipv4\<close>, so \<^verbatim>\<open>getRefs\<close> pivots from \<open>nodeN\<close> in to \<open>nodeM\<close> and from \<open>nodeM\<close>
  out to \<open>nodeN\<close>.
\<close>

definition ipv4_type :: stype where
  "ipv4_type = \<lparr>tname = ''inet:ipv4'', tclass = Other\<rparr>"

definition dnsa_type :: stype where
  "dnsa_type = \<lparr>tname = ''inet:dns:a'', tclass = Other\<rparr>"

definition dnsa_ipv4 :: modelprop where
  "dnsa_ipv4 = \<lparr>pfull = ''inet:dns:a:ipv4'', ptype = ipv4_type\<rparr>"

definition form_ipv4 :: form where
  "form_ipv4 = \<lparr>fname = ''inet:ipv4'', ftype = ipv4_type, fprops = []\<rparr>"

definition form_dnsa :: form where
  "form_dnsa = \<lparr>fname = ''inet:dns:a'', ftype = dnsa_type, fprops = [(''ipv4'', dnsa_ipv4)]\<rparr>"

definition nodeN :: node where
  "nodeN = \<lparr>buid = 1, ndef = (''inet:ipv4'', VInt 16909060), props = [], tags = [],
             form = form_ipv4\<rparr>"

definition nodeM :: node where
  "nodeM = \<lparr>buid = 2, ndef = (''inet:dns:a'', VPair ''vertex.link'' (VInt 16909060)),
             props = [(''ipv4'', VInt 16909060)], tags = [], form = form_dnsa\<rparr>"

definition ex_snap :: snap where
  "ex_snap =
     \<lparr>getNodeByNdef = (\<lambda>v. if v = VPair ''inet:ipv4'' (VInt 16909060) then Some nodeN else None),
      getNodesBy = (\<lambda>full v. if full = ''inet:dns:a:ipv4'' \<and> v = VInt 16909060 then [nodeM] else []),
      model_forms = (\<lambda>n. if n = ''inet:ipv4'' then Some form_ipv4
                          else if n = ''inet:dns:a'' then Some form_dnsa else None),
      model_propsbytype = (\<lambda>n. if n = ''inet:ipv4'' then [dnsa_ipv4] else []),
      model_props = [dnsa_ipv4]\<rparr>"

text \<open>
  Options with the given \<^verbatim>\<open>degrees\<close>, \<^verbatim>\<open>join\<close>, \<^verbatim>\<open>unique\<close> and
  \<^verbatim>\<open>omit-traversal-form\<close>, everything else at its default.
\<close>

definition ex_opts :: "int \<Rightarrow> bool \<Rightarrow> bool \<Rightarrow> string list \<Rightarrow> noderefs_opts" where
  "ex_opts d j u otf =
     \<lparr>degrees = d, traverse_edge = False, join = j, omit_traversal_form = otf,
      omit_traversal_tag = [], omit_form = [], omit_tag = [], unique = u\<rparr>"

text \<open>
  A data node \<open>nodeX\<close> with the given tag applications, and four stores.
  \<^item> \<open>st_foo\<close>: the tag-definitions \<^verbatim>\<open>foo.bar\<close> (with a \<^verbatim>\<open>doc\<close>), \<^verbatim>\<open>foo.bar.baz\<close> (with
    a \<^verbatim>\<open>doc\<close> and a \<^verbatim>\<open>title\<close>) and \<^verbatim>\<open>foo.barbaz\<close>; \<open>nodeX\<close> carries \<^verbatim>\<open>foo.bar\<close>
    without a value, \<^verbatim>\<open>foo.bar.baz\<close> with the interval (100, 200) and \<^verbatim>\<open>foo.barbaz\<close>
    with (1, 2).
  \<^item> \<open>st_ab\<close>: the tag-definitions \<^verbatim>\<open>a.b\<close> and \<^verbatim>\<open>a.b.b\<close>; \<open>nodeX\<close> carries \<^verbatim>\<open>a.b\<close>
    without a value and \<^verbatim>\<open>a.b.b\<close> with the interval (100, 200).
  \<^item> \<open>st_abb\<close>: the same tag-definitions; \<open>nodeX\<close> carries only \<^verbatim>\<open>a.b.b\<close>, with the
    interval (100, 200).
  \<^item> \<open>st_f\<close>: the tag-definition \<^verbatim>\<open>foo\<close>; \<open>nodeX\<close> carries \<^verbatim>\<open>foo\<close> without a value.
\<close>

definition tagform :: form where
  "tagform = \<lparr>fname = ''test:str'', ftype = \<lparr>tname = ''test:str'', tclass = Other\<rparr>, fprops = []\<rparr>"

definition nodeX :: "(string \<times> tagvalu) list \<Rightarrow> node" where
  "nodeX ts = \<lparr>buid = 10, ndef = (''test:str'', VStr ''x''), props = [], tags = ts, form = tagform\<rparr>"

definition st_foo :: store where
  "st_foo =
     \<lparr>tagdefs = [(''foo.bar'', \<lparr>doc = Some ''the bar'', title = None, isnow = None\<rparr>),
                 (''foo.bar.baz'', \<lparr>doc = Some ''about baz'', title = Some ''Baz'', isnow = None\<rparr>),
                 (''foo.barbaz'', \<lparr>doc = None, title = None, isnow = None\<rparr>)],
      nodes = [nodeX [(''foo.bar'', None), (''foo.bar.baz'', Some (100, 200)),
                      (''foo.barbaz'', Some (1, 2))]]\<rparr>"

definition st_ab :: store where
  "st_ab =
     \<lparr>tagdefs = [(''a.b'', \<lparr>doc = None, title = None, isnow = None\<rparr>),
                 (''a.b.b'', \<lparr>doc = None, title = None, isnow = None\<rparr>)],
      nodes = [nodeX [(''a.b'', None), (''a.b.b'', Some (100, 200))]]\<rparr>"

definition st_abb :: store where
  "st_abb =
     \<lparr>tagdefs = [(''a.b'', \<lparr>doc = None, title = None, isnow = None\<rparr>),
                 (''a.b.b'', \<lparr>doc = None, title = None, isnow = None\<rparr>)],
      nodes = [nodeX [(''a.b.b'', Some (100, 200))]]\<rparr>"

definition st_f :: store where
  "st_f =
     \<lparr>tagdefs = [(''foo'', \<lparr>doc = None, title = None, isnow = None\<rparr>)],
      nodes = [nodeX [(''foo'', None)]]\<rparr>"

section \<open>Properties of CountCmd\<close>

lemma count_loop_items: "fst (count_loop i k genr) = genr"
  by (induction genr arbitrary: i k) (simp_all add: split_beta)

lemma count_loop_index: "snd (count_loop i k genr) = (if genr = [] then i else k + length genr - 1)"
  by (induction genr arbitrary: i k) (simp_all add: split_beta)

lemma str_of_nat_0: "str_of_nat 0 = ''0''"
  by (simp add: str_of_nat.simps digit_char_def)

text \<open>
  C10. Over an empty upstream the count command forwards nothing and prints exactly
  one line, \<^verbatim>\<open>Counted 0 nodes.\<close>; it neither fails nor reports 1.
\<close>

theorem C10_count_empty:
  "CountCmd_runStormCmd ([] :: 'a list) = ([], [''Counted 0 nodes.''])"
  by (simp add: CountCmd_runStormCmd_def str_of_nat_0)


section \<open>Properties of LimitCmd\<close>

lemma limit_loop_items:
  "fst (limit_loop d n count genr) = take (min d (nat (n - count))) genr"
proof (induction d n count genr rule: limit_loop.induct)
  case (3 d n count item genr)
  show ?case
  proof (cases "count \<ge> n")
    case True
    then show ?thesis by simp
  next
    case False
    then have "nat (n - count) = Suc (nat (n - (count + 1)))" by simp
    with False 3 show ?thesis by (simp add: split_beta)
  qed
qed simp_all

lemma limit_loop_rest:
  "fst (snd (limit_loop d n count genr)) = drop (min d (Suc (nat (n - count)))) genr"
proof (induction d n count genr rule: limit_loop.induct)
  case (3 d n count item genr)
  show ?case
  proof (cases "count \<ge> n")
    case True
    then show ?thesis by simp
  next
    case False
    then have "nat (n - count) = Suc (nat (n - (count + 1)))" by simp
    with False 3 show ?thesis by (simp add: split_beta)
  qed
qed simp_all

lemma limit_loop_out:
  "snd (snd (limit_loop d n count genr)) =
     (if nat (n - count) < min d (length genr) then [''limit reached: '' @ str_of_int n] else [])"
proof (induction d n count genr rule: limit_loop.induct)
  case (3 d n count item genr)
  show ?case
  proof (cases "count \<ge> n")
    case True
    then show ?thesis by simp
  next
    case False
    then have "nat (n - count) = Suc (nat (n - (count + 1)))" by simp
    with False 3 show ?thesis by (simp add: split_beta)
  qed
qed simp_all

text \<open>
  C2, as the code has it. For every limit \<open>n\<close>, every upstream and every number
  \<open>d\<close> of requests by the consumer, the command forwards the first \<open>min d n\<close>
  upstream items, so at most \<open>n\<close>; but it takes \<open>min d (n + 1)\<close> items off the
  upstream: the request that follows the \<open>n\<close>-th forwarded item pulls one more
  upstream item, prints \<^verbatim>\<open>limit reached: n\<close>, drops the item and ends the stream.
  The line is printed exactly when that further item was requested and the
  upstream had it, and nothing else is ever printed. Drained, the command
  forwards the first \<open>n\<close> items, has pulled \<open>n + 1\<close> of them when the upstream is
  that long, and has printed the line exactly when the upstream held more than
  \<open>n\<close> items.
\<close>

theorem C2_limit_forwards_n_pulls_one_more:
  "fst (limit_loop d n 0 genr) = take (min d (nat n)) genr
   \<and> fst (snd (limit_loop d n 0 genr)) = drop (min d (Suc (nat n))) genr
   \<and> snd (snd (limit_loop d n 0 genr)) =
       (if nat n < d \<and> nat n < length genr then [''limit reached: '' @ str_of_int n] else [])
   \<and> fst (LimitCmd_runStormCmd n genr) = take (nat n) genr
   \<and> length (fst (LimitCmd_runStormCmd n genr)) \<le> nat n
   \<and> pulled genr (LimitCmd_runStormCmd n genr) = min (Suc (nat n)) (length genr)
   \<and> snd (snd (LimitCmd_runStormCmd n genr)) =
       (if nat n < length genr then [''limit reached: '' @ str_of_int n] else [])"
  by (simp add: limit_loop_items limit_loop_rest limit_loop_out LimitCmd_runStormCmd_def
      pulled_def min_def)

text \<open>
  \<^verbatim>\<open>Limit(2)\<close> drained over the five items 1..5 forwards 1 and 2, prints
  \<^verbatim>\<open>limit reached: 2\<close> and leaves only 4 and 5 upstream: the third item has been
  pulled and dropped.
\<close>

theorem C2_limit_pulls_third:
  "fst (LimitCmd_runStormCmd 2 [1, 2, 3, 4, 5 :: nat]) = [1, 2]
   \<and> fst (snd (LimitCmd_runStormCmd 2 [1, 2, 3, 4, 5 :: nat])) = [4, 5]
   \<and> snd (snd (LimitCmd_runStormCmd 2 [1, 2, 3, 4, 5 :: nat])) = [''limit reached: 2'']
   \<and> pulled [1, 2, 3, 4, 5 :: nat] (LimitCmd_runStormCmd 2 [1, 2, 3, 4, 5 :: nat]) = 3"
  by (simp add: LimitCmd_runStormCmd_def pulled_def str_of_int_def str_of_nat.simps digit_char_def)

section \<open>Properties of Runtime\<close>

lemma allowed_elevated:
  "elevated rt \<Longrightarrow> fst (allowed rt args) = Inr () \<and> elevated (snd (allowed rt args))"
  by (auto simp: allowed_def memoize_def allowed_body_def split: option.splits)

lemma allowed_seq_elevated:
  "elevated rt \<Longrightarrow>
     fst (allowed_seq rt paths) = map (\<lambda>_. Inr ()) paths \<and> elevated (snd (allowed_seq rt paths))"
proof (induction paths arbitrary: rt)
  case Nil
  then show ?case by simp
next
  case (Cons args paths)
  from allowed_elevated [OF Cons.prems, of args]
  have a: "fst (allowed rt args) = Inr ()" and e: "elevated (snd (allowed rt args))"
    by simp_all
  from Cons.IH [OF e] a show ?case
    by (simp add: split_beta)
qed

lemma allowed_memo_mono:
  "memo rt k = Some () \<Longrightarrow> memo (snd (allowed rt args)) k = Some ()"
  by (auto simp: allowed_def memoize_def split: option.splits sum.splits)

lemma allowed_seq_memo_mono:
  "memo rt k = Some () \<Longrightarrow> memo (snd (allowed_seq rt paths)) k = Some ()"
proof (induction paths arbitrary: rt)
  case Nil
  then show ?case by simp
next
  case (Cons args paths)
  from Cons.IH [OF allowed_memo_mono [OF Cons.prems, of args]]
  show ?case by (simp add: split_beta)
qed

text \<open>
  C9. \<^verbatim>\<open>elevate\<close> raises \<^verbatim>\<open>AuthDeny\<close> whenever a principal is attached and is not
  administrative, leaving the runtime as it was; it succeeds only when the attached
  principal is administrative (or none is attached), and then the runtime it leaves
  has the elevation flag set, every later permission check on it succeeds, whatever
  the paths, and the flag stays set.
\<close>

theorem C9_elevate_requires_admin:
  "(user rt = Some u \<and> \<not> admin u \<longrightarrow>
      elevate rt = Inl (AuthDeny [(''mesg'', ''user is not admin''), (''user'', uname u)]))
   \<and> (elevate rt = Inr rt' \<longrightarrow>
        (user rt = None \<or> (\<exists>a. user rt = Some a \<and> admin a))
        \<and> rt' = rt\<lparr>elevated := True\<rparr>
        \<and> fst (allowed_seq rt' paths) = map (\<lambda>_. Inr ()) paths
        \<and> elevated (snd (allowed_seq rt' paths)))"
proof (intro conjI impI)
  assume "user rt = Some u \<and> \<not> admin u"
  then show "elevate rt = Inl (AuthDeny [(''mesg'', ''user is not admin''), (''user'', uname u)])"
    by (simp add: elevate_def)
next
  assume ok: "elevate rt = Inr rt'"
  then show "user rt = None \<or> (\<exists>a. user rt = Some a \<and> admin a)"
    by (auto simp: elevate_def split: option.splits if_splits)
  from ok show r: "rt' = rt\<lparr>elevated := True\<rparr>"
    by (auto simp: elevate_def split: option.splits if_splits)
  then have "elevated rt'" by simp
  from allowed_seq_elevated [OF this, of paths]
  show "fst (allowed_seq rt' paths) = map (\<lambda>_. Inr ()) paths"
    and "elevated (snd (allowed_seq rt' paths))"
    by simp_all
qed

theorem C9_elevate_witness:
  "elevate (runt_of visi) = Inl (AuthDeny [(''mesg'', ''user is not admin''), (''user'', ''visi'')])
   \<and> elevate (runt_of root) = Inr ((runt_of root)\<lparr>elevated := True\<rparr>)
   \<and> fst (allowed_seq ((runt_of root)\<lparr>elevated := True\<rparr>) [[''node'', ''del''], [''hehe'', ''haha'']])
       = [Inr (), Inr ()]"
proof -
  have e: "elevate (runt_of root) = Inr ((runt_of root)\<lparr>elevated := True\<rparr>)"
    by (simp add: elevate_def runt_of_def root_def)
  have v: "user (runt_of visi) = Some visi \<and> \<not> admin visi"
    by (simp add: runt_of_def visi_def)
  from C9_elevate_requires_admin [of "runt_of visi" visi] v
    C9_elevate_requires_admin [of "runt_of root" root "(runt_of root)\<lparr>elevated := True\<rparr>"
      "[[''node'', ''del''], [''hehe'', ''haha'']]"] e
  show ?thesis by (simp add: visi_def)
qed

text \<open>
  C3. A denied call stores nothing: it returns \<^verbatim>\<open>AuthDeny\<close> with the joined path and
  the principal's name and leaves the runtime, its memo included, exactly as it was,
  so the identical call made next is evaluated against the principal's rules again
  and raises the same \<^verbatim>\<open>AuthDeny\<close>; and had the rules come to allow the path in
  between, that next call would succeed. A successful call leaves the path itself,
  as an ordered list, as the one key added to the memo, and from then on the same
  path succeeds from the memo whatever principal and rules the runtime then has,
  through any number of further checks.
\<close>

theorem C3_deny_not_cached_success_memoized:
  "(fst (allowed rt args) = Inl e \<longrightarrow>
      snd (allowed rt args) = rt
      \<and> memo rt args = None
      \<and> (\<exists>u. user rt = Some u \<and> \<not> uallowed u args
           \<and> e = AuthDeny [(''perm'', join_dot args), (''user'', uname u)])
      \<and> fst (allowed (snd (allowed rt args)) args) = Inl e
      \<and> (uallowed u' args \<longrightarrow>
            fst (allowed ((snd (allowed rt args))\<lparr>user := Some u'\<rparr>) args) = Inr ()))
   \<and> (fst (allowed rt args) = Inr () \<longrightarrow>
        dom (memo (snd (allowed rt args))) = insert args (dom (memo rt))
        \<and> memo (snd (allowed_seq (snd (allowed rt args)) paths)) args = Some ()
        \<and> fst (allowed ((snd (allowed_seq (snd (allowed rt args)) paths))\<lparr>user := w\<rparr>) args) = Inr ())"
proof (intro conjI impI)
  assume d: "fst (allowed rt args) = Inl e"
  then show s: "snd (allowed rt args) = rt"
    by (auto simp: allowed_def memoize_def split: option.splits sum.splits)
  from d show "memo rt args = None"
    by (auto simp: allowed_def memoize_def split: option.splits sum.splits)
  from d show "\<exists>u. user rt = Some u \<and> \<not> uallowed u args
           \<and> e = AuthDeny [(''perm'', join_dot args), (''user'', uname u)]"
    by (auto simp: allowed_def memoize_def allowed_body_def split: option.splits sum.splits if_splits)
  from d s show "fst (allowed (snd (allowed rt args)) args) = Inl e"
    by simp
  assume "uallowed u' args"
  with d s show "fst (allowed ((snd (allowed rt args))\<lparr>user := Some u'\<rparr>) args) = Inr ()"
    by (auto simp: allowed_def memoize_def allowed_body_def split: option.splits sum.splits if_splits)
next
  assume ok: "fst (allowed rt args) = Inr ()"
  then show "dom (memo (snd (allowed rt args))) = insert args (dom (memo rt))"
    by (auto simp: allowed_def memoize_def split: option.splits sum.splits)
  from ok have m: "memo (snd (allowed rt args)) args = Some ()"
    by (auto simp: allowed_def memoize_def split: option.splits sum.splits)
  from allowed_seq_memo_mono [OF m, of paths]
  show m2: "memo (snd (allowed_seq (snd (allowed rt args)) paths)) args = Some ()" .
  then show "fst (allowed ((snd (allowed_seq (snd (allowed rt args)) paths))\<lparr>user := w\<rparr>) args) = Inr ()"
    by (simp add: allowed_def memoize_def)
qed

text \<open>
  The principal \<^verbatim>\<open>visi\<close> is denied \<^verbatim>\<open>hehe.haha\<close> twice in a row, and is allowed
  \<^verbatim>\<open>foo.bar\<close>; after that success and a further denied check, \<^verbatim>\<open>foo.bar\<close> still
  succeeds once the runtime's principal is one whose rules allow nothing.
\<close>

theorem C3_deny_not_cached_witness:
  "fst (allowed (runt_of visi) [''hehe'', ''haha''])
     = Inl (AuthDeny [(''perm'', ''hehe.haha''), (''user'', ''visi'')])
   \<and> fst (allowed (snd (allowed (runt_of visi) [''hehe'', ''haha''])) [''hehe'', ''haha''])
     = Inl (AuthDeny [(''perm'', ''hehe.haha''), (''user'', ''visi'')])
   \<and> fst (allowed (runt_of visi) [''foo'', ''bar'']) = Inr ()
   \<and> fst (allowed ((snd (allowed_seq (snd (allowed (runt_of visi) [''foo'', ''bar'']))
                          [[''hehe'', ''haha'']]))\<lparr>user := Some root\<rparr>) [''foo'', ''bar'']) = Inr ()"
proof -
  have d: "fst (allowed (runt_of visi) [''hehe'', ''haha''])
     = Inl (AuthDeny [(''perm'', ''hehe.haha''), (''user'', ''visi'')])"
    by (simp add: allowed_def memoize_def allowed_body_def runt_of_def visi_def)
  have a: "fst (allowed (runt_of visi) [''foo'', ''bar'']) = Inr ()"
    by (simp add: allowed_def memoize_def allowed_body_def runt_of_def visi_def)
  from C3_deny_not_cached_success_memoized [of "runt_of visi" "[''hehe'', ''haha'']"
      "AuthDeny [(''perm'', ''hehe.haha''), (''user'', ''visi'')]" root "[]" None] d
    C3_deny_not_cached_success_memoized [of "runt_of visi" "[''foo'', ''bar'']"
      "AuthDeny []" root "[[''hehe'', ''haha'']]" "Some root"] a
  show ?thesis by simp
qed

section \<open>Properties of getRefs\<close>

lemma refork_simps:
  "refork sp [] = []"
  "refork sp ((n, p) # cs) = (n, fork sp n) # refork sp cs"
  "refork sp (cs @ ds) = refork sp cs @ refork sp ds"
  "refork sp (map (\<lambda>pivo. (pivo, fork sp' pivo)) ns) = map (\<lambda>pivo. (pivo, fork sp pivo)) ns"
  by (simp_all add: refork_def comp_def)

lemma refork_concat: "refork sp (concat xss) = concat (map (refork sp) xss)"
  by (induction xss) (simp_all add: refork_simps)

lemma pivot_form_fork: "pivot_form s sp prp v = refork sp (pivot_form s [] prp v)"
  by (simp add: pivot_form_def refork_simps split: option.splits)

lemma pivot_out_fork:
  "fst (pivot_out s sn sp item) = refork sp (fst (pivot_out s sn [] item))
   \<and> snd (pivot_out s sn sp item) = snd (pivot_out s sn [] item)"
proof (cases item)
  case (Pair name v)
  have f: "pivot_form s sp prp v = refork sp (pivot_form s [] prp v)" for prp
    by (rule pivot_form_fork)
  show ?thesis
    by (simp add: Pair pivot_out_def refork_simps f [symmetric] split: option.splits sum.splits)
qed

lemma getRefs_out_fork:
  "fst (getRefs_out s sn sp items) = refork sp (fst (getRefs_out s sn [] items))
   \<and> snd (getRefs_out s sn sp items) = snd (getRefs_out s sn [] items)"
proof (induction items)
  case Nil
  show ?case by (simp add: refork_simps)
next
  case (Cons item items)
  obtain cs e where p: "pivot_out s sn sp item = (cs, e)" by (cases "pivot_out s sn sp item")
  obtain cs0 e0 where p0: "pivot_out s sn [] item = (cs0, e0)" by (cases "pivot_out s sn [] item")
  from pivot_out_fork [of s sn sp item] p p0
  have 1: "cs = refork sp cs0" and 2: "e = e0" by simp_all
  show ?case using Cons p p0 1 2
    by (cases e0) (simp_all add: split_beta refork_simps)
qed

lemma getRefs_in_fork: "getRefs_in s sn sp = refork sp (getRefs_in s sn [])"
  by (simp add: getRefs_in_def split_beta refork_concat comp_def refork_simps)

lemma pivot_ndef_fork: "pivot_ndef s opts sn sp pivo = refork sp (pivot_ndef s opts sn [] pivo)"
  by (simp add: pivot_ndef_def refork_simps split: option.splits)

lemma getRefs_ndef_fork: "getRefs_ndef s opts np sn sp = refork sp (getRefs_ndef s opts np sn [])"
proof -
  have "pivot_ndef s opts sn sp = (\<lambda>pivo. refork sp (pivot_ndef s opts sn [] pivo))"
    using pivot_ndef_fork by blast
  then show ?thesis
    by (simp add: getRefs_ndef_def refork_concat comp_def)
qed

lemma getRefs_refs:
  "fst (getRefs s opts np sn sp) = map (\<lambda>n. (n, fork sp n)) (refs s opts np sn)"
proof -
  obtain cs e where p: "getRefs_out s sn sp (props sn) = (cs, e)" by (cases "getRefs_out s sn sp (props sn)")
  obtain cs0 e0 where p0: "getRefs_out s sn [] (props sn) = (cs0, e0)" by (cases "getRefs_out s sn [] (props sn)")
  from getRefs_out_fork [of s sn sp "props sn"] p p0
  have 1: "cs = refork sp cs0" and 2: "e = e0" by simp_all
  have "fst (getRefs s opts np sn sp) = refork sp (fst (getRefs s opts np sn []))"
    using p p0 1 2 getRefs_in_fork [of s sn sp] getRefs_ndef_fork [of s opts np sn sp]
    by (cases e0) (simp_all add: getRefs_def refork_simps)
  then show ?thesis by (simp add: refs_def refork_def comp_def)
qed

lemma pivot_out_raised:
  "snd (pivot_out s sn sp item) = None \<or> snd (pivot_out s sn sp item) = Some ValueError \<or> snd (pivot_out s sn sp item) = Some TypeError"
  by (cases item) (auto simp: pivot_out_def unpack2_def split: option.splits sum.splits valu.splits list.splits)

lemma getRefs_out_raised:
  "snd (getRefs_out s sn sp items) = None \<or> snd (getRefs_out s sn sp items) = Some ValueError \<or> snd (getRefs_out s sn sp items) = Some TypeError"
proof (induction items)
  case Nil
  show ?case by simp
next
  case (Cons item items)
  obtain cs e where p: "pivot_out s sn sp item = (cs, e)" by (cases "pivot_out s sn sp item")
  with pivot_out_raised [of s sn sp item] have "e = None \<or> e = Some ValueError \<or> e = Some TypeError" by simp
  with Cons p show ?case by (auto simp: split_beta)
qed

lemma getRefs_raised:
  "snd (getRefs s opts np sn sp) = None \<or> snd (getRefs s opts np sn sp) = Some ValueError \<or> snd (getRefs s opts np sn sp) = Some TypeError"
proof -
  obtain cs e where p: "getRefs_out s sn sp (props sn) = (cs, e)" by (cases "getRefs_out s sn sp (props sn)")
  with getRefs_out_raised [of s sn sp "props sn"] have "e = None \<or> e = Some ValueError \<or> e = Some TypeError" by simp
  with p show ?thesis by (auto simp: getRefs_def)
qed

section \<open>Properties of doRefs\<close>

lemma ybuids_simps [simp]:
  "ybuids [] = []"
  "ybuids (x # xs) = buid (fst x) # ybuids xs"
  "ybuids (xs @ ys) = ybuids xs @ ybuids ys"
  by (simp_all add: ybuids_def)

lemma set_ybuids: "set (ybuids ys) = (\<lambda>x. buid (fst x)) ` set ys"
  by (simp add: ybuids_def)

lemma doRefs_for_inv:
  "trav_inv opts V0 t \<Longrightarrow> trav_inv opts V0 (doRefs_for opts cs t)"
proof (induction cs arbitrary: t)
  case Nil
  then show ?case by simp
next
  case (Cons c cs)
  obtain pnode ppath where c: "c = (pnode, ppath)" by (cases c)
  show ?case
  proof (cases "buid pnode \<in> visited t")
    case True
    with Cons c show ?thesis by simp
  next
    case False
    note nv = this
    show ?thesis
    proof (cases "omitted opts pnode")
      case True
      have "trav_inv opts V0 (t\<lparr>visited := insert (buid pnode) (visited t)\<rparr>)"
        using Cons.prems by (auto simp: trav_inv_def)
      from Cons.IH [OF this] nv True c show ?thesis by simp
    next
      case False
      note no = this
      show ?thesis
      proof (cases "omitted_traversal opts pnode")
        case True
        have "trav_inv opts V0 (t\<lparr>visited := insert (buid pnode) (visited t),
                 yielded := yielded t @ [(pnode, ppath)]\<rparr>)"
          using Cons.prems nv no by (auto simp: trav_inv_def)
        from Cons.IH [OF this] nv no True c show ?thesis by simp
      next
        case False
        have "trav_inv opts V0 (t\<lparr>visited := insert (buid pnode) (visited t),
                 yielded := yielded t @ [(pnode, ppath)],
                 newqueue := newqueue t @ [(pnode, ppath)]\<rparr>)"
          using Cons.prems nv no False by (auto simp: trav_inv_def)
        from Cons.IH [OF this] nv no False c show ?thesis by simp
      qed
    qed
  qed
qed

lemma doRefs_for_raised [simp]: "raised (doRefs_for opts cs t) = raised t"
  by (induction opts cs t rule: doRefs_for.induct) simp_all

lemma doRefs_for_expanded [simp]: "expanded (doRefs_for opts cs t) = expanded t"
  by (induction opts cs t rule: doRefs_for.induct) simp_all

lemma trav_inv_upd [simp]:
  "trav_inv opts V0 (t\<lparr>expanded := e\<rparr>) = trav_inv opts V0 t"
  "trav_inv opts V0 (t\<lparr>raised := r\<rparr>) = trav_inv opts V0 t"
  by (simp_all add: trav_inv_def)

lemma trav_inv_newqueue: "trav_inv opts V0 t \<Longrightarrow> trav_inv opts V0 (t\<lparr>newqueue := []\<rparr>)"
  by (simp add: trav_inv_def)

lemma doRefs_pop_inv:
  "trav_inv opts V0 t \<Longrightarrow> trav_inv opts V0 (doRefs_pop s opts np q t)"
proof (induction q arbitrary: t)
  case Nil
  then show ?case by simp
next
  case (Cons x q)
  obtain snode spath where x: "x = (snode, spath)" by (cases x)
  obtain cands e where g: "getRefs s opts np snode spath = (cands, e)"
    by (cases "getRefs s opts np snode spath")
  have i: "trav_inv opts V0 (doRefs_for opts cands (t\<lparr>expanded := expanded t @ [snode]\<rparr>))"
    using Cons.prems by (intro doRefs_for_inv) simp
  show ?case
  proof (cases e)
    case None
    with Cons.IH [OF i] x g show ?thesis by simp
  next
    case (Some a)
    with i x g show ?thesis by simp
  qed
qed

lemma doRefs_while_rounds:
  "doRefs_while s opts np (int k) srcqueue t = Some (doRefs_rounds s opts np k srcqueue t)"
proof (induction k arbitrary: srcqueue t)
  case 0
  show ?case by (subst doRefs_while.simps) simp
next
  case (Suc k)
  have e: "int (Suc k) - 1 = int k" by simp
  show ?case
    apply (subst doRefs_while.simps)
    apply (simp only: e Suc)
    apply (simp add: Let_def)
    done
qed

lemma doRefs_rounds_inv:
  "trav_inv opts V0 t \<Longrightarrow> trav_inv opts V0 (doRefs_rounds s opts np k q t)"
proof (induction k arbitrary: q t)
  case 0
  then show ?case by simp
next
  case (Suc k)
  have i: "trav_inv opts V0 (doRefs_pop s opts np (rev q) (t\<lparr>newqueue := []\<rparr>))"
    using Suc.prems by (intro doRefs_pop_inv trav_inv_newqueue)
  from Suc.IH [OF i] i show ?case by (simp add: Let_def)
qed

lemma doRefs_for_step:
  "\<exists>t1. doRefs_for opts (c # rest) t = doRefs_for opts rest t1
     \<and> (\<exists>zs. yielded t1 = yielded t @ zs \<and> set zs \<subseteq> {c})
     \<and> (\<exists>qs. newqueue t1 = newqueue t @ qs \<and> set qs \<subseteq> {c})"
proof (cases c)
  case (Pair pnode ppath)
  show ?thesis
    unfolding Pair doRefs_for.simps
    by (cases "buid pnode \<in> visited t"; cases "omitted opts pnode"; cases "omitted_traversal opts pnode")
       (simp_all, (rule exI, rule conjI, rule refl, simp)+)
qed

lemma doRefs_for_yielded_mono:
  "\<exists>ys. yielded (doRefs_for opts cs t) = yielded t @ ys \<and> set ys \<subseteq> set cs"
proof (induction cs arbitrary: t)
  case Nil
  show ?case by simp
next
  case (Cons c cs)
  from doRefs_for_step [of opts c cs t] obtain t1 zs where
    s: "doRefs_for opts (c # cs) t = doRefs_for opts cs t1" "yielded t1 = yielded t @ zs" "set zs \<subseteq> {c}"
    by blast
  from Cons [of t1] obtain ys where y: "yielded (doRefs_for opts cs t1) = yielded t1 @ ys" "set ys \<subseteq> set cs"
    by blast
  have "yielded (doRefs_for opts (c # cs) t) = yielded t @ (zs @ ys)" "set (zs @ ys) \<subseteq> set (c # cs)"
    using s y by auto
  then show ?case by blast
qed

lemma doRefs_for_newqueue_mono:
  "\<exists>qs. newqueue (doRefs_for opts cs t) = newqueue t @ qs \<and> set qs \<subseteq> set cs"
proof (induction cs arbitrary: t)
  case Nil
  show ?case by simp
next
  case (Cons c cs)
  from doRefs_for_step [of opts c cs t] obtain t1 zs where
    s: "doRefs_for opts (c # cs) t = doRefs_for opts cs t1" "newqueue t1 = newqueue t @ zs" "set zs \<subseteq> {c}"
    by blast
  from Cons [of t1] obtain ys where y: "newqueue (doRefs_for opts cs t1) = newqueue t1 @ ys" "set ys \<subseteq> set cs"
    by blast
  have "newqueue (doRefs_for opts (c # cs) t) = newqueue t @ (zs @ ys)" "set (zs @ ys) \<subseteq> set (c # cs)"
    using s y by auto
  then show ?case by blast
qed

lemma doRefs_for_visited: "visited (doRefs_for opts cs t) = visited t \<union> (\<lambda>x. buid (fst x)) ` set cs"
  by (induction opts cs t rule: doRefs_for.induct) auto

lemma doRefs_pop_yielded_mono:
  "\<exists>ys. yielded (doRefs_pop s opts np q t) = yielded t @ ys"
proof (induction q arbitrary: t)
  case Nil
  show ?case by simp
next
  case (Cons x q)
  obtain snode spath where x: "x = (snode, spath)" by (cases x)
  obtain cands e where g: "getRefs s opts np snode spath = (cands, e)"
    by (cases "getRefs s opts np snode spath")
  let ?t = "doRefs_for opts cands (t\<lparr>expanded := expanded t @ [snode]\<rparr>)"
  from doRefs_for_yielded_mono [of opts cands "t\<lparr>expanded := expanded t @ [snode]\<rparr>"]
  obtain ys where y: "yielded ?t = yielded t @ ys" by auto
  show ?case
  proof (cases e)
    case None
    from Cons.IH [of ?t] obtain zs where "yielded (doRefs_pop s opts np q ?t) = yielded ?t @ zs" by auto
    with None x g y show ?thesis by simp
  next
    case (Some a)
    with x g y show ?thesis by simp
  qed
qed

lemma doRefs_pop_visited_mono: "visited t \<subseteq> visited (doRefs_pop s opts np q t)"
proof (induction q arbitrary: t)
  case Nil
  show ?case by simp
next
  case (Cons x q)
  obtain snode spath where x: "x = (snode, spath)" by (cases x)
  obtain cands e where g: "getRefs s opts np snode spath = (cands, e)"
    by (cases "getRefs s opts np snode spath")
  let ?t = "doRefs_for opts cands (t\<lparr>expanded := expanded t @ [snode]\<rparr>)"
  have v: "visited t \<subseteq> visited ?t" by (simp add: doRefs_for_visited)
  show ?case
  proof (cases e)
    case None
    with Cons.IH [of ?t] v x g show ?thesis by auto
  next
    case (Some a)
    with x g v show ?thesis by simp
  qed
qed

lemma chain_snoc:
  "chain s opts np xs \<Longrightarrow> xs \<noteq> [] \<Longrightarrow> b \<in> set (refs s opts np (last xs)) \<Longrightarrow> chain s opts np (xs @ [b])"
  by (induction s opts np xs rule: chain.induct) auto

lemma hops_from_step:
  assumes "hops_from s opts np srcnode srcpath k (sn, sp)" and "c \<in> set (fst (getRefs s opts np sn sp))"
  shows "hops_from s opts np srcnode srcpath (Suc k) c"
proof -
  from assms(1) obtain hs where h: "sp = srcpath @ hs" "length hs = k" "chain s opts np (srcnode # hs)"
      "last (srcnode # hs) = sn"
    by (auto simp: hops_from_def)
  from assms(2) obtain n where n: "n \<in> set (refs s opts np sn)" "c = (n, fork sp n)"
    by (auto simp: getRefs_refs)
  from chain_snoc [OF h(3), of n] h(4) n(1) have "chain s opts np ((srcnode # hs) @ [n])" by simp
  with h n show ?thesis
    by (auto simp: hops_from_def fork_def intro!: exI [of _ "hs @ [n]"])
qed

lemma doRefs_for_hop:
  assumes "hop_inv s opts np srcnode srcpath (Suc k) t"
    and "\<forall>c \<in> set cs. hops_from s opts np srcnode srcpath (Suc k) c"
  shows "hop_inv s opts np srcnode srcpath (Suc k) (doRefs_for opts cs t)"
proof -
  from doRefs_for_yielded_mono [of opts cs t] obtain ys where
    y: "yielded (doRefs_for opts cs t) = yielded t @ ys" "set ys \<subseteq> set cs" by auto
  from doRefs_for_newqueue_mono [of opts cs t] obtain qs where
    q: "newqueue (doRefs_for opts cs t) = newqueue t @ qs" "set qs \<subseteq> set cs" by auto
  show ?thesis
    unfolding hop_inv_def y(1) q(1)
    using assms y(2) q(2) by (fastforce simp: hop_inv_def)
qed

lemma hop_inv_upd [simp]:
  "hop_inv s opts np srcnode srcpath r (t\<lparr>expanded := e\<rparr>) = hop_inv s opts np srcnode srcpath r t"
  "hop_inv s opts np srcnode srcpath r (t\<lparr>raised := x\<rparr>) = hop_inv s opts np srcnode srcpath r t"
  by (simp_all add: hop_inv_def)

lemma doRefs_pop_hop:
  assumes "hop_inv s opts np srcnode srcpath (Suc k) t"
    and "\<forall>x \<in> set q. hops_from s opts np srcnode srcpath k x"
  shows "hop_inv s opts np srcnode srcpath (Suc k) (doRefs_pop s opts np q t)"
  using assms
proof (induction q arbitrary: t)
  case Nil
  then show ?case by simp
next
  case (Cons x q)
  obtain snode spath where x: "x = (snode, spath)" by (cases x)
  obtain cands e where g: "getRefs s opts np snode spath = (cands, e)"
    by (cases "getRefs s opts np snode spath")
  let ?t = "doRefs_for opts cands (t\<lparr>expanded := expanded t @ [snode]\<rparr>)"
  from Cons.prems(2) x have hx: "hops_from s opts np srcnode srcpath k (snode, spath)" by simp
  have "\<forall>c \<in> set cands. hops_from s opts np srcnode srcpath (Suc k) c"
    using hops_from_step [OF hx] g by simp
  with Cons.prems(1) have i: "hop_inv s opts np srcnode srcpath (Suc k) ?t"
    by (intro doRefs_for_hop) simp_all
  show ?case
  proof (cases e)
    case None
    from Cons.IH [OF i] Cons.prems(2) None x g show ?thesis by simp
  next
    case (Some a)
    with i x g show ?thesis by simp
  qed
qed

lemma doRefs_rounds_hop:
  assumes "\<forall>x \<in> set (yielded t). \<exists>j. 1 \<le> j \<and> j \<le> k \<and> hops_from s opts np srcnode srcpath j x"
    and "\<forall>x \<in> set q. hops_from s opts np srcnode srcpath k x"
  shows "\<forall>x \<in> set (yielded (doRefs_rounds s opts np m q t)).
           \<exists>j. 1 \<le> j \<and> j \<le> k + m \<and> hops_from s opts np srcnode srcpath j x"
  using assms
proof (induction m arbitrary: q t k)
  case 0
  then show ?case by simp
next
  case (Suc m)
  let ?t = "doRefs_pop s opts np (rev q) (t\<lparr>newqueue := []\<rparr>)"
  have "hop_inv s opts np srcnode srcpath (Suc k) (t\<lparr>newqueue := []\<rparr>)"
    using Suc.prems(1) by (fastforce simp: hop_inv_def)
  then have i: "hop_inv s opts np srcnode srcpath (Suc k) ?t"
    using Suc.prems(2) by (intro doRefs_pop_hop) simp_all
  then have y: "\<forall>x \<in> set (yielded ?t). \<exists>j. 1 \<le> j \<and> j \<le> Suc k \<and> hops_from s opts np srcnode srcpath j x"
    and n: "\<forall>x \<in> set (newqueue ?t). hops_from s opts np srcnode srcpath (Suc k) x"
    by (simp_all add: hop_inv_def)
  show ?case
  proof (cases "raised ?t = None")
    case True
    from Suc.IH [OF y n] True show ?thesis by (simp add: Let_def)
  next
    case False
    with y show ?thesis by (fastforce simp: Let_def)
  qed
qed

lemma doRefs_for_exp:
  "exp_inv opts srcnode t \<Longrightarrow> exp_inv opts srcnode (doRefs_for opts cs t)"
proof -
  assume a: "exp_inv opts srcnode t"
  from doRefs_for_yielded_mono [of opts cs t] obtain ys where
    y: "yielded (doRefs_for opts cs t) = yielded t @ ys" by auto
  show ?thesis
    unfolding exp_inv_def y using a by (auto simp: exp_inv_def)
qed

lemma doRefs_pop_exp:
  assumes "exp_inv opts srcnode t"
    and "\<forall>x \<in> set q. fst x = srcnode \<or> (x \<in> set (yielded t) \<and> \<not> omitted_traversal opts (fst x))"
  shows "exp_inv opts srcnode (doRefs_pop s opts np q t)"
  using assms
proof (induction q arbitrary: t)
  case Nil
  then show ?case by simp
next
  case (Cons x q)
  obtain snode spath where x: "x = (snode, spath)" by (cases x)
  obtain cands e where g: "getRefs s opts np snode spath = (cands, e)"
    by (cases "getRefs s opts np snode spath")
  let ?u = "t\<lparr>expanded := expanded t @ [snode]\<rparr>"
  let ?t = "doRefs_for opts cands ?u"
  have "exp_inv opts srcnode ?u"
    using Cons.prems x by (force simp: exp_inv_def)
  then have i: "exp_inv opts srcnode ?t" by (rule doRefs_for_exp)
  from doRefs_for_yielded_mono [of opts cands ?u] obtain ys where
    y: "yielded ?t = yielded t @ ys" by auto
  have q: "\<forall>x \<in> set q. fst x = srcnode \<or> (x \<in> set (yielded ?t) \<and> \<not> omitted_traversal opts (fst x))"
    unfolding y using Cons.prems(2) by auto
  show ?case
  proof (cases e)
    case None
    from Cons.IH [OF i q] None x g show ?thesis by simp
  next
    case (Some a)
    with i x g show ?thesis by (simp add: exp_inv_def)
  qed
qed

lemma doRefs_rounds_exp:
  assumes "exp_inv opts srcnode t" and "trav_inv opts V0 t"
    and "\<forall>x \<in> set q. fst x = srcnode \<or> (x \<in> set (yielded t) \<and> \<not> omitted_traversal opts (fst x))"
  shows "exp_inv opts srcnode (doRefs_rounds s opts np k q t)"
  using assms
proof (induction k arbitrary: q t)
  case 0
  then show ?case by simp
next
  case (Suc k)
  let ?t = "doRefs_pop s opts np (rev q) (t\<lparr>newqueue := []\<rparr>)"
  have "exp_inv opts srcnode (t\<lparr>newqueue := []\<rparr>)"
    using Suc.prems(1) by (simp add: exp_inv_def)
  then have e: "exp_inv opts srcnode ?t"
    using Suc.prems(3) by (intro doRefs_pop_exp) simp_all
  have i: "trav_inv opts V0 ?t"
    using Suc.prems(2) by (intro doRefs_pop_inv trav_inv_newqueue)
  then have q: "\<forall>x \<in> set (newqueue ?t). fst x = srcnode \<or> (x \<in> set (yielded ?t) \<and> \<not> omitted_traversal opts (fst x))"
    by (simp add: trav_inv_def)
  from Suc.IH [OF e i q] e show ?case by (simp add: Let_def)
qed

lemma doRefs_for_cov:
  "cov_inv opts V0 C t \<Longrightarrow> cov_inv opts V0 (C \<union> fst ` set cs) (doRefs_for opts cs t)"
proof (induction cs arbitrary: t C)
  case Nil
  then show ?case by simp
next
  case (Cons c cs)
  obtain pnode ppath where c: "c = (pnode, ppath)" by (cases c)
  have e: "C \<union> fst ` set (c # cs) = insert pnode C \<union> fst ` set cs" using c by auto
  show ?case
  proof (cases "buid pnode \<in> visited t")
    case True
    with Cons.prems have "cov_inv opts V0 (insert pnode C) t"
      by (auto simp: cov_inv_def)
    from Cons.IH [OF this] True c e show ?thesis by simp
  next
    case False
    note nv = this
    show ?thesis
    proof (cases "omitted opts pnode")
      case True
      have "cov_inv opts V0 (insert pnode C) (t\<lparr>visited := insert (buid pnode) (visited t)\<rparr>)"
        using Cons.prems True by (auto simp: cov_inv_def)
      from Cons.IH [OF this] nv True c e show ?thesis by simp
    next
      case False
      note no = this
      show ?thesis
      proof (cases "omitted_traversal opts pnode")
        case True
        have "cov_inv opts V0 (insert pnode C) (t\<lparr>visited := insert (buid pnode) (visited t),
                 yielded := yielded t @ [(pnode, ppath)]\<rparr>)"
          using Cons.prems by (auto simp: cov_inv_def)
        from Cons.IH [OF this] nv no True c e show ?thesis by simp
      next
        case False
        have "cov_inv opts V0 (insert pnode C) (t\<lparr>visited := insert (buid pnode) (visited t),
                 yielded := yielded t @ [(pnode, ppath)],
                 newqueue := newqueue t @ [(pnode, ppath)]\<rparr>)"
          using Cons.prems by (auto simp: cov_inv_def)
        from Cons.IH [OF this] nv no False c e show ?thesis by simp
      qed
    qed
  qed
qed

lemma cov_inv_upd [simp]:
  "cov_inv opts V0 C (t\<lparr>expanded := e\<rparr>) = cov_inv opts V0 C t"
  "cov_inv opts V0 C (t\<lparr>raised := x\<rparr>) = cov_inv opts V0 C t"
  "cov_inv opts V0 C (t\<lparr>newqueue := q\<rparr>) = cov_inv opts V0 C t"
  by (simp_all add: cov_inv_def)

lemma candidates_upd [simp]:
  "candidates s opts np (t\<lparr>raised := x\<rparr>) = candidates s opts np t"
  "candidates s opts np (t\<lparr>newqueue := q\<rparr>) = candidates s opts np t"
  by (simp_all add: candidates_def)

lemma doRefs_pop_cov:
  "cov_inv opts V0 (candidates s opts np t) t \<Longrightarrow>
   cov_inv opts V0 (candidates s opts np (doRefs_pop s opts np q t)) (doRefs_pop s opts np q t)"
proof (induction q arbitrary: t)
  case Nil
  then show ?case by simp
next
  case (Cons x q)
  obtain snode spath where x: "x = (snode, spath)" by (cases x)
  obtain cands e where g: "getRefs s opts np snode spath = (cands, e)"
    by (cases "getRefs s opts np snode spath")
  let ?u = "t\<lparr>expanded := expanded t @ [snode]\<rparr>"
  let ?t = "doRefs_for opts cands ?u"
  from getRefs_refs [of s opts np snode spath] g
  have cs: "fst ` set cands = set (refs s opts np snode)" by (auto simp: image_image)
  have "cov_inv opts V0 (candidates s opts np t) ?u" using Cons.prems by simp
  from doRefs_for_cov [OF this, of cands] cs
  have i: "cov_inv opts V0 (candidates s opts np ?t) ?t"
    by (simp add: candidates_def Un_commute)
  show ?case
  proof (cases e)
    case None
    from Cons.IH [OF i] None x g show ?thesis by simp
  next
    case (Some a)
    with i x g show ?thesis by simp
  qed
qed

lemma doRefs_rounds_cov:
  "cov_inv opts V0 (candidates s opts np t) t \<Longrightarrow>
   cov_inv opts V0 (candidates s opts np (doRefs_rounds s opts np k q t)) (doRefs_rounds s opts np k q t)"
proof (induction k arbitrary: q t)
  case 0
  then show ?case by simp
next
  case (Suc k)
  let ?t = "doRefs_pop s opts np (rev q) (t\<lparr>newqueue := []\<rparr>)"
  have "cov_inv opts V0 (candidates s opts np (t\<lparr>newqueue := []\<rparr>)) (t\<lparr>newqueue := []\<rparr>)"
    using Suc.prems by simp
  then have i: "cov_inv opts V0 (candidates s opts np ?t) ?t" by (rule doRefs_pop_cov)
  from Suc.IH [OF i] i show ?case by (simp add: Let_def)
qed

lemma doRefs_pop_raised:
  "raised t = None \<or> raised t = Some ValueError \<or> raised t = Some TypeError \<Longrightarrow>
   raised (doRefs_pop s opts np q t) = None \<or> raised (doRefs_pop s opts np q t) = Some ValueError \<or> raised (doRefs_pop s opts np q t) = Some TypeError"
proof (induction q arbitrary: t)
  case Nil
  then show ?case by simp
next
  case (Cons x q)
  obtain snode spath where x: "x = (snode, spath)" by (cases x)
  obtain cands e where g: "getRefs s opts np snode spath = (cands, e)"
    by (cases "getRefs s opts np snode spath")
  let ?t = "doRefs_for opts cands (t\<lparr>expanded := expanded t @ [snode]\<rparr>)"
  have r: "raised ?t = None \<or> raised ?t = Some ValueError \<or> raised ?t = Some TypeError" using Cons.prems by simp
  from getRefs_raised [of s opts np snode spath] g have e: "e = None \<or> e = Some ValueError \<or> e = Some TypeError" by simp
  show ?case
  proof (cases e)
    case None
    from Cons.IH [OF r] None x g show ?thesis by simp
  next
    case (Some a)
    with e x g show ?thesis by simp
  qed
qed

lemma doRefs_rounds_raised:
  "raised t = None \<or> raised t = Some ValueError \<or> raised t = Some TypeError \<Longrightarrow>
   raised (doRefs_rounds s opts np k q t) = None \<or> raised (doRefs_rounds s opts np k q t) = Some ValueError \<or> raised (doRefs_rounds s opts np k q t) = Some TypeError"
proof (induction k arbitrary: q t)
  case 0
  then show ?case by simp
next
  case (Suc k)
  let ?t = "doRefs_pop s opts np (rev q) (t\<lparr>newqueue := []\<rparr>)"
  have r: "raised ?t = None \<or> raised ?t = Some ValueError \<or> raised ?t = Some TypeError"
    using Suc.prems by (intro doRefs_pop_raised) simp
  from Suc.IH [OF r] r show ?case by (auto simp: Let_def)
qed

lemma doRefs_rounds_eq:
  "degrees opts = int k \<Longrightarrow>
   doRefs s opts np srcnode srcpath vis = Some (doRefs_rounds s opts np k [(srcnode, srcpath)] (trav_start vis))"
  by (simp add: doRefs_def doRefs_while_rounds trav_start_def)

lemma hops_from_0: "hops_from s opts np srcnode srcpath 0 (srcnode, srcpath)"
  by (simp add: hops_from_def)

lemma doRefs_summary:
  assumes "degrees opts = int k" and "doRefs s opts np srcnode srcpath vis = Some t"
  shows "trav_inv opts vis t"
    and "\<forall>x \<in> set (yielded t). \<exists>j. 1 \<le> j \<and> j \<le> k \<and> hops_from s opts np srcnode srcpath j x"
    and "exp_inv opts srcnode t"
    and "cov_inv opts vis (candidates s opts np t) t"
    and "raised t = None \<or> raised t = Some ValueError \<or> raised t = Some TypeError"
proof -
  from doRefs_rounds_eq [OF assms(1), of s np srcnode srcpath vis] assms(2)
  have t: "t = doRefs_rounds s opts np k [(srcnode, srcpath)] (trav_start vis)" by simp
  have i: "trav_inv opts vis (trav_start vis)" by (simp add: trav_inv_def trav_start_def)
  show "trav_inv opts vis t" unfolding t using i by (rule doRefs_rounds_inv)
  have "\<forall>x \<in> set (yielded t). \<exists>j. 1 \<le> j \<and> j \<le> 0 + k \<and> hops_from s opts np srcnode srcpath j x"
    unfolding t by (rule doRefs_rounds_hop) (simp_all add: trav_start_def hops_from_0)
  then show "\<forall>x \<in> set (yielded t). \<exists>j. 1 \<le> j \<and> j \<le> k \<and> hops_from s opts np srcnode srcpath j x"
    by simp
  show "exp_inv opts srcnode t" unfolding t
    by (rule doRefs_rounds_exp [OF _ i]) (simp_all add: exp_inv_def trav_start_def)
  show "cov_inv opts vis (candidates s opts np t) t" unfolding t
    by (rule doRefs_rounds_cov) (simp add: cov_inv_def candidates_def trav_start_def)
  show "raised t = None \<or> raised t = Some ValueError \<or> raised t = Some TypeError" unfolding t
    by (rule doRefs_rounds_raised) (simp add: trav_start_def)
qed

lemma doRefs_for_pend:
  "pend_inv opts P t \<Longrightarrow> pend_inv opts P (doRefs_for opts cs t)"
proof (induction opts cs t rule: doRefs_for.induct)
  case (1 opts t)
  then show ?case by simp
next
  case (2 opts pnode ppath rest t)
  show ?case
  proof (cases "buid pnode \<in> visited t")
    case True
    with 2 show ?thesis by simp
  next
    case v: False
    show ?thesis
    proof (cases "omitted opts pnode")
      case True
      have "pend_inv opts P (t\<lparr>visited := insert (buid pnode) (visited t)\<rparr>)"
        using "2.prems" by (simp add: pend_inv_def)
      with 2 v True show ?thesis by simp
    next
      case o: False
      show ?thesis
      proof (cases "omitted_traversal opts pnode")
        case True
        have "pend_inv opts P (t\<lparr>visited := insert (buid pnode) (visited t),
            yielded := yielded t @ [(pnode, ppath)]\<rparr>)"
          using "2.prems" True by (simp add: pend_inv_def)
        with 2 v o True show ?thesis by simp
      next
        case False
        have "pend_inv opts P (t\<lparr>visited := insert (buid pnode) (visited t),
            yielded := yielded t @ [(pnode, ppath)], newqueue := newqueue t @ [(pnode, ppath)]\<rparr>)"
          using "2.prems" by (auto simp: pend_inv_def)
        with 2 v o False show ?thesis by simp
      qed
    qed
  qed
qed

lemma doRefs_pop_pend:
  "pend_inv opts (set q \<union> P) t \<Longrightarrow> raised (doRefs_pop s opts np q t) = None \<Longrightarrow>
   pend_inv opts P (doRefs_pop s opts np q t)"
proof (induction q arbitrary: t)
  case Nil
  then show ?case by simp
next
  case (Cons x q)
  obtain snode spath where x: "x = (snode, spath)" by (cases x)
  obtain cands e where g: "getRefs s opts np snode spath = (cands, e)"
    by (cases "getRefs s opts np snode spath")
  let ?t = "doRefs_for opts cands (t\<lparr>expanded := expanded t @ [snode]\<rparr>)"
  have "pend_inv opts (set q \<union> P) (t\<lparr>expanded := expanded t @ [snode]\<rparr>)"
    using Cons.prems(1) x by (auto simp: pend_inv_def)
  then have i: "pend_inv opts (set q \<union> P) ?t" by (rule doRefs_for_pend)
  show ?case
  proof (cases e)
    case None
    with Cons.prems(2) x g have "raised (doRefs_pop s opts np q ?t) = None" by simp
    from Cons.IH [OF i this] None x g show ?thesis by simp
  next
    case (Some a)
    with Cons.prems(2) x g show ?thesis by simp
  qed
qed

lemma doRefs_rounds_pend:
  "pend_inv opts (set q) (t\<lparr>newqueue := []\<rparr>) \<Longrightarrow> raised (doRefs_rounds s opts np (Suc k) q t) = None \<Longrightarrow>
   pend_inv opts {} (doRefs_rounds s opts np (Suc k) q t)"
proof (induction k arbitrary: q t)
  case 0
  let ?t = "doRefs_pop s opts np (rev q) (t\<lparr>newqueue := []\<rparr>)"
  from 0 have r: "raised ?t = None" by (simp add: Let_def split: if_splits)
  have "pend_inv opts (set (rev q) \<union> {}) (t\<lparr>newqueue := []\<rparr>)" using 0 by simp
  from doRefs_pop_pend [OF this r] show ?case by (simp add: Let_def)
next
  case (Suc k)
  let ?t = "doRefs_pop s opts np (rev q) (t\<lparr>newqueue := []\<rparr>)"
  show ?case
  proof (cases "raised ?t = None")
    case True
    have "pend_inv opts (set (rev q) \<union> {}) (t\<lparr>newqueue := []\<rparr>)" using Suc.prems(1) by simp
    from doRefs_pop_pend [OF this True] have p: "pend_inv opts {} ?t" .
    then have p': "pend_inv opts (set (newqueue ?t)) (?t\<lparr>newqueue := []\<rparr>)"
      by (auto simp: pend_inv_def)
    from Suc.prems(2) True have "raised (doRefs_rounds s opts np (Suc k) (newqueue ?t) ?t) = None"
      by (simp add: Let_def)
    from Suc.IH [OF p' this] True show ?thesis by (simp add: Let_def)
  next
    case False
    with Suc.prems(2) show ?thesis by (simp add: Let_def)
  qed
qed

lemma doRefs_pop_expanded:
  "\<exists>ys. expanded (doRefs_pop s opts np q t) = expanded t @ ys
        \<and> (q \<noteq> [] \<longrightarrow> ys \<noteq> [] \<and> hd ys = fst (hd q))"
proof (induction q arbitrary: t)
  case Nil
  show ?case by simp
next
  case (Cons x q)
  obtain snode spath where x: "x = (snode, spath)" by (cases x)
  obtain cands e where g: "getRefs s opts np snode spath = (cands, e)"
    by (cases "getRefs s opts np snode spath")
  let ?t = "doRefs_for opts cands (t\<lparr>expanded := expanded t @ [snode]\<rparr>)"
  show ?case
  proof (cases e)
    case None
    from Cons.IH [of ?t] obtain ys where "expanded (doRefs_pop s opts np q ?t) = expanded ?t @ ys"
      by blast
    with None x g have "expanded (doRefs_pop s opts np (x # q) t) = expanded t @ (snode # ys)" by simp
    with x show ?thesis by (intro exI [of _ "snode # ys"]) simp
  next
    case (Some a)
    with x g have "expanded (doRefs_pop s opts np (x # q) t) = expanded t @ [snode]" by simp
    with x show ?thesis by (intro exI [of _ "[snode]"]) simp
  qed
qed

lemma doRefs_rounds_expanded:
  "\<exists>ys. expanded (doRefs_rounds s opts np k q t) = expanded t @ ys"
proof (induction k arbitrary: q t)
  case 0
  show ?case by simp
next
  case (Suc k)
  let ?t = "doRefs_pop s opts np (rev q) (t\<lparr>newqueue := []\<rparr>)"
  from doRefs_pop_expanded [of s opts np "rev q" "t\<lparr>newqueue := []\<rparr>"]
  obtain ys where y: "expanded ?t = expanded t @ ys" by auto
  from Suc.IH [of "newqueue ?t" ?t] obtain zs where
    "expanded (doRefs_rounds s opts np k (newqueue ?t) ?t) = expanded ?t @ zs" by blast
  with y show ?case by (simp add: Let_def)
qed

lemma doRefs_source_expanded:
  assumes "1 \<le> degrees opts" and "doRefs s opts np srcnode srcpath vis = Some t"
  shows "expanded t \<noteq> [] \<and> hd (expanded t) = srcnode"
proof -
  from assms(1) have k: "degrees opts = int (Suc (nat (degrees opts) - 1))" by simp
  define k' where "k' = nat (degrees opts) - 1"
  define t1 where "t1 = doRefs_pop s opts np (rev [(srcnode, srcpath)]) ((trav_start vis)\<lparr>newqueue := []\<rparr>)"
  from doRefs_rounds_eq [OF k, of s np srcnode srcpath vis] assms(2)
  have "t = doRefs_rounds s opts np (Suc k') [(srcnode, srcpath)] (trav_start vis)"
    by (simp add: k'_def)
  then have t: "t = (if raised t1 \<noteq> None then t1 else doRefs_rounds s opts np k' (newqueue t1) t1)"
    by (simp only: doRefs_rounds.simps Let_def t1_def)
  from doRefs_pop_expanded [of s opts np "rev [(srcnode, srcpath)]" "(trav_start vis)\<lparr>newqueue := []\<rparr>"]
  obtain ys where y: "expanded t1 = ys" "ys \<noteq> []" "hd ys = srcnode"
    unfolding t1_def [symmetric] by (auto simp: trav_start_def)
  from doRefs_rounds_expanded [of s opts np k' "newqueue t1" t1] obtain zs where
    z: "expanded (doRefs_rounds s opts np k' (newqueue t1) t1) = expanded t1 @ zs" by blast
  show ?thesis
  proof (cases "raised t1 \<noteq> None")
    case True
    with t have "t = t1" by simp
    with y show ?thesis by simp
  next
    case False
    with t have "t = doRefs_rounds s opts np k' (newqueue t1) t1" by simp
    with z y show ?thesis by simp
  qed
qed

lemma doRefs_pending:
  assumes "1 \<le> degrees opts" and "doRefs s opts np srcnode srcpath vis = Some t" and "raised t = None"
  shows "pend_inv opts {} t"
proof -
  from assms(1) have k: "degrees opts = int (Suc (nat (degrees opts) - 1))" by simp
  from doRefs_rounds_eq [OF k, of s np srcnode srcpath vis] assms(2)
  have t: "t = doRefs_rounds s opts np (Suc (nat (degrees opts) - 1)) [(srcnode, srcpath)] (trav_start vis)"
    by simp
  have "pend_inv opts (set [(srcnode, srcpath)]) ((trav_start vis)\<lparr>newqueue := []\<rparr>)"
    by (simp add: pend_inv_def trav_start_def)
  from doRefs_rounds_pend [OF this] assms(3) t show ?thesis by simp
qed

lemma traversed_block [simp]:
  "traversed opts ((if join opts then [x] else []) @ ys) = ys"
  by (simp add: traversed_def)

lemma noderefs_for_blocks:
  assumes "degrees opts = int k" and "noderefs_for s opts np genr vis = Some r"
  shows "length (blocks r) \<le> length genr
         \<and> (\<forall>i < length (blocks r). block_ok s opts np k (genr ! i) (blocks r ! i))
         \<and> (failed r = None \<or> failed r = Some ValueError \<or> failed r = Some TypeError)"
  using assms(2)
proof (induction genr arbitrary: vis r)
  case Nil
  then show ?case by auto
next
  case (Cons x genr)
  obtain node path where x: "x = (node, path)" by (cases x)
  let ?V = "insert (buid node) (if \<not> unique opts then {} else vis)"
  from Cons.prems x obtain t where d: "doRefs s opts np node path ?V = Some t"
    by (auto split: option.splits)
  note sm = doRefs_summary [OF assms(1) d]
  let ?b = "(if join opts then [(node, path)] else []) @ yielded t"
  from sm(1) have bo: "block_ok s opts np k x ?b"
    using sm(2) x by (auto simp: block_ok_def trav_inv_def)
  show ?case
  proof (cases "raised t")
    case (Some e)
    with Cons.prems x d have r: "r = \<lparr>blocks = [?b], failed = Some e\<rparr>" by simp
    from sm(5) Some have "e = ValueError \<or> e = TypeError" by simp
    with r bo show ?thesis by auto
  next
    case None
    with Cons.prems x d obtain r' where
      r': "noderefs_for s opts np genr (visited t) = Some r'" "r = r'\<lparr>blocks := ?b # blocks r'\<rparr>"
      by (auto split: option.splits)
    from Cons.IH [OF r'(1)] have ih: "length (blocks r') \<le> length genr"
      "\<forall>i < length (blocks r'). block_ok s opts np k (genr ! i) (blocks r' ! i)"
      "failed r' = None \<or> failed r' = Some ValueError \<or> failed r' = Some TypeError" by simp_all
    have "\<forall>i < length (blocks r). block_ok s opts np k ((x # genr) ! i) (blocks r ! i)"
    proof (intro allI impI)
      fix i assume "i < length (blocks r)"
      then show "block_ok s opts np k ((x # genr) ! i) (blocks r ! i)"
        using r'(2) ih(2) bo by (cases i) simp_all
    qed
    with ih r'(2) show ?thesis by simp
  qed
qed

lemma scoped_mono: "scoped opts seen genr bs \<Longrightarrow> seen' \<subseteq> seen \<Longrightarrow> scoped opts seen' genr bs"
proof (induction opts seen genr bs arbitrary: seen' rule: scoped.induct)
  case (3 opts seen x genr b bs)
  from "3.prems" have 1: "distinct (ybuids (traversed opts b))"
    and 2: "set (ybuids (traversed opts b)) \<inter> insert (buid (fst x)) seen' = {}"
    and 3: "scoped opts (insert (buid (fst x)) seen \<union> set (ybuids (traversed opts b))) genr bs"
    by auto
  have "insert (buid (fst x)) seen' \<union> set (ybuids (traversed opts b))
        \<subseteq> insert (buid (fst x)) seen \<union> set (ybuids (traversed opts b))"
    using "3.prems"(2) by auto
  from "3.IH" [OF 3 this] 1 2 show ?case by simp
qed simp_all

lemma noderefs_for_scoped:
  assumes "degrees opts = int k" and "unique opts" and "noderefs_for s opts np genr vis = Some r"
  shows "scoped opts vis genr (blocks r)"
  using assms(3)
proof (induction genr arbitrary: vis r)
  case Nil
  then show ?case by auto
next
  case (Cons x genr)
  obtain node path where x: "x = (node, path)" by (cases x)
  from Cons.prems x assms(2) obtain t where d: "doRefs s opts np node path (insert (buid node) vis) = Some t"
    by (auto split: option.splits)
  note sm = doRefs_summary [OF assms(1) d]
  let ?b = "(if join opts then [(node, path)] else []) @ yielded t"
  from sm(1) have i: "distinct (ybuids (yielded t))" "set (ybuids (yielded t)) \<inter> insert (buid node) vis = {}"
    "insert (buid node) vis \<union> set (ybuids (yielded t)) \<subseteq> visited t"
    by (auto simp: trav_inv_def)
  show ?case
  proof (cases "raised t")
    case (Some e)
    with Cons.prems x d assms(2) have r: "r = \<lparr>blocks = [?b], failed = Some e\<rparr>" by simp
    with i x show ?thesis by simp
  next
    case None
    with Cons.prems x d assms(2) obtain r' where
      r': "noderefs_for s opts np genr (visited t) = Some r'" "r = r'\<lparr>blocks := ?b # blocks r'\<rparr>"
      by (auto split: option.splits)
    from scoped_mono [OF Cons.IH [OF r'(1)] i(3)] i r'(2) x show ?thesis by simp
  qed
qed

lemma scoped_seen:
  "scoped opts seen genr bs \<Longrightarrow> set (ybuids (concat (map (traversed opts) bs))) \<inter> seen = {}"
proof (induction opts seen genr bs rule: scoped.induct)
  case (3 opts seen x genr b bs)
  then show ?case by auto
qed simp_all

lemma scoped_distinct:
  "scoped opts seen genr bs \<Longrightarrow> distinct (ybuids (concat (map (traversed opts) bs)))"
proof (induction opts seen genr bs rule: scoped.induct)
  case (3 opts seen x genr b bs)
  from "3.prems" have s: "scoped opts (insert (buid (fst x)) seen \<union> set (ybuids (traversed opts b))) genr bs"
    by simp
  from scoped_seen [OF s] "3.IH" [OF s] "3.prems" show ?case by auto
qed simp_all

lemma scoped_sources:
  "scoped opts seen genr bs \<Longrightarrow> i < length bs \<Longrightarrow> i' \<le> i \<Longrightarrow>
     buid (fst (genr ! i')) \<notin> set (ybuids (traversed opts (bs ! i)))"
proof (induction opts seen genr bs arbitrary: i i' rule: scoped.induct)
  case (3 opts seen x genr b bs)
  from "3.prems"(1) have s: "scoped opts (insert (buid (fst x)) seen \<union> set (ybuids (traversed opts b))) genr bs"
    and h: "buid (fst x) \<notin> set (ybuids (traversed opts b))"
    by auto
  show ?case
  proof (cases i)
    case 0
    with "3.prems" h show ?thesis by simp
  next
    case (Suc m)
    note i = this
    show ?thesis
    proof (cases i')
      case 0
      from scoped_seen [OF s] have "buid (fst x) \<notin> set (ybuids (concat (map (traversed opts) bs)))"
        by auto
      moreover from "3.prems"(2) i have "m < length bs" by simp
      then have "bs ! m \<in> set bs" by simp
      then have "set (ybuids (traversed opts (bs ! m))) \<subseteq> set (ybuids (concat (map (traversed opts) bs)))"
        by (force simp: set_ybuids)
      ultimately show ?thesis using i 0 by auto
    next
      case (Suc m')
      with "3.IH" [OF s, of m m'] "3.prems" i show ?thesis by simp
    qed
  qed
qed simp_all

section \<open>The example graph\<close>

lemma ex_ndef_props: "ndef_props_of ex_snap = []"
  by (simp add: ndef_props_of_def ex_snap_def dnsa_ipv4_def ipv4_type_def)

lemma ex_fields:
  "buid nodeN = 1" "buid nodeM = 2"
  "fst (ndef nodeN) = ''inet:ipv4''" "fst (ndef nodeM) = ''inet:dns:a''"
  "tags nodeN = []" "tags nodeM = []"
  by (simp_all add: nodeN_def nodeM_def)

lemma ex_getRefs_N: "getRefs ex_snap opts [] nodeN p = ([(nodeM, p @ [nodeM])], None)"
  by (simp add: getRefs_def getRefs_in_def getRefs_ndef_def nodeN_def ex_snap_def dnsa_ipv4_def fork_def)

lemma ex_getRefs_M: "getRefs ex_snap opts [] nodeM p = ([(nodeN, p @ [nodeN])], None)"
  by (simp add: getRefs_def getRefs_in_def getRefs_ndef_def pivot_out_def pivot_form_def
      nodeM_def form_dnsa_def ex_snap_def dnsa_ipv4_def ipv4_type_def form_ipv4_def fork_def)

lemma ex_omitted: "\<not> omitted (ex_opts d j u otf) n"
  by (simp add: omitted_def ex_opts_def)

lemma ex_omitted_traversal:
  "omitted_traversal (ex_opts d j u otf) n \<longleftrightarrow> fst (ndef n) \<in> set otf"
  by (simp add: omitted_traversal_def ex_opts_def)

lemma ex_opts_fields:
  "degrees (ex_opts d j u otf) = d" "join (ex_opts d j u otf) = j" "unique (ex_opts d j u otf) = u"
  by (simp_all add: ex_opts_def)

lemma ex_doRefs_N_1:
  "doRefs ex_snap (ex_opts 1 j u []) [] nodeN p vis =
     Some (if 2 \<in> vis then \<lparr>visited = vis, newqueue = [], yielded = [], expanded = [nodeN], raised = None\<rparr>
           else \<lparr>visited = insert 2 vis, newqueue = [(nodeM, p @ [nodeM])],
                 yielded = [(nodeM, p @ [nodeM])], expanded = [nodeN], raised = None\<rparr>)"
  using doRefs_rounds_eq [of "ex_opts 1 j u []" 1 ex_snap "[]" nodeN p vis]
  by (simp add: ex_opts_fields trav_start_def ex_getRefs_N ex_fields ex_omitted ex_omitted_traversal)

lemma ex_doRefs_M_1:
  "doRefs ex_snap (ex_opts 1 j u []) [] nodeM p vis =
     Some (if 1 \<in> vis then \<lparr>visited = vis, newqueue = [], yielded = [], expanded = [nodeM], raised = None\<rparr>
           else \<lparr>visited = insert 1 vis, newqueue = [(nodeN, p @ [nodeN])],
                 yielded = [(nodeN, p @ [nodeN])], expanded = [nodeM], raised = None\<rparr>)"
  using doRefs_rounds_eq [of "ex_opts 1 j u []" 1 ex_snap "[]" nodeM p vis]
  by (simp add: ex_opts_fields trav_start_def ex_getRefs_M ex_fields ex_omitted ex_omitted_traversal)

lemma ex_join_unique:
  "NoderefsCmd_runStormCmd ex_snap (ex_opts 1 True True []) [(nodeN, [nodeN]), (nodeM, [nodeM])]
     = Some \<lparr>blocks = [[(nodeN, [nodeN]), (nodeM, [nodeN, nodeM])], [(nodeM, [nodeM])]], failed = None\<rparr>"
  by (simp add: NoderefsCmd_runStormCmd_def ex_ndef_props ex_doRefs_N_1 ex_doRefs_M_1 ex_opts_fields ex_fields)

lemma ex_doRefs_N_2:
  "doRefs ex_snap (ex_opts 2 False False [''inet:ipv4'']) [] nodeN [nodeN] {1} =
     Some \<lparr>visited = {1, 2}, newqueue = [], yielded = [(nodeM, [nodeN, nodeM])],
            expanded = [nodeN, nodeM], raised = None\<rparr>"
  using doRefs_rounds_eq [of "ex_opts 2 False False [''inet:ipv4'']" 2 ex_snap "[]" nodeN "[nodeN]" "{1}"]
  by (simp add: ex_opts_fields trav_start_def ex_getRefs_N ex_getRefs_M ex_fields ex_omitted
      ex_omitted_traversal numeral_2_eq_2 insert_commute)

section \<open>Properties of NoderefsCmd\<close>

lemma count_list_distinct: "distinct xs \<Longrightarrow> x \<in> set xs \<Longrightarrow> count_list xs x = 1"
  by (induction xs) auto

lemma noderefs_for_total:
  "degrees opts = int k \<Longrightarrow> \<exists>r. noderefs_for s opts np genr vis = Some r"
proof (induction genr arbitrary: vis)
  case Nil
  show ?case by simp
next
  case (Cons x genr)
  obtain node path where x: "x = (node, path)" by (cases x)
  let ?V = "insert (buid node) (if \<not> unique opts then {} else vis)"
  from doRefs_rounds_eq [OF Cons.prems, of s np node path ?V]
  obtain t where d: "doRefs s opts np node path ?V = Some t" by blast
  from Cons.IH [OF Cons.prems, of "visited t"] obtain r' where
    "noderefs_for s opts np genr (visited t) = Some r'" by blast
  with d x show ?case by (cases "raised t") simp_all
qed

text \<open>
  C8. With \<^verbatim>\<open>degrees\<close> below 1 the command raises \<^verbatim>\<open>BadOperArg\<close> and yields nothing,
  whatever the upstream; with \<^verbatim>\<open>degrees\<close> at least 1 it runs to an end and
  \<^verbatim>\<open>BadOperArg\<close> is not what it raises, if it raises at all.
\<close>

theorem C8_degrees_below_one_rejected:
  "(degrees opts < 1 \<longrightarrow>
      NoderefsCmd_runStormCmd s opts genr =
        Some \<lparr>blocks = [],
              failed = Some (BadOperArg [(''mesg'', ''degrees must be greater than or equal to 1''),
                                         (''arg'', ''degrees'')])\<rparr>)
   \<and> (1 \<le> degrees opts \<longrightarrow>
        (\<exists>r. NoderefsCmd_runStormCmd s opts genr = Some r \<and> (\<forall>a. failed r \<noteq> Some (BadOperArg a))))"
proof (intro conjI impI)
  assume "degrees opts < 1"
  then show "NoderefsCmd_runStormCmd s opts genr =
        Some \<lparr>blocks = [],
              failed = Some (BadOperArg [(''mesg'', ''degrees must be greater than or equal to 1''),
                                         (''arg'', ''degrees'')])\<rparr>"
    by (simp add: NoderefsCmd_runStormCmd_def)
next
  assume d: "1 \<le> degrees opts"
  then have k: "degrees opts = int (nat (degrees opts))" by simp
  from noderefs_for_total [OF k, of s "ndef_props_of s" genr "{}"] obtain r where
    r: "noderefs_for s opts (ndef_props_of s) genr {} = Some r" by blast
  from noderefs_for_blocks [OF k r] have "failed r = None \<or> failed r = Some ValueError \<or> failed r = Some TypeError" by simp
  then have "\<forall>a. failed r \<noteq> Some (BadOperArg a)" by auto
  with r d show "\<exists>r. NoderefsCmd_runStormCmd s opts genr = Some r \<and> (\<forall>a. failed r \<noteq> Some (BadOperArg a))"
    by (simp add: NoderefsCmd_runStormCmd_def)
qed

lemma ex_run_N_1:
  "NoderefsCmd_runStormCmd ex_snap (ex_opts 1 False False []) [(nodeN, [nodeN])]
     = Some \<lparr>blocks = [[(nodeM, [nodeN, nodeM])]], failed = None\<rparr>"
  by (simp add: NoderefsCmd_runStormCmd_def ex_ndef_props ex_doRefs_N_1 ex_opts_fields ex_fields)

theorem C8_degrees_witness:
  "NoderefsCmd_runStormCmd ex_snap (ex_opts 0 False False []) [(nodeN, [nodeN])] =
     Some \<lparr>blocks = [],
           failed = Some (BadOperArg [(''mesg'', ''degrees must be greater than or equal to 1''),
                                      (''arg'', ''degrees'')])\<rparr>
   \<and> NoderefsCmd_runStormCmd ex_snap (ex_opts 1 False False []) [(nodeN, [nodeN])]
       = Some \<lparr>blocks = [[(nodeM, [nodeN, nodeM])]], failed = None\<rparr>
   \<and> (\<forall>a. failed \<lparr>blocks = [[(nodeM, [nodeN, nodeM])]], failed = None\<rparr> \<noteq> Some (BadOperArg a))"
  using C8_degrees_below_one_rejected [of "ex_opts 0 False False []" ex_snap "[(nodeN, [nodeN])]"]
    C8_degrees_below_one_rejected [of "ex_opts 1 False False []" ex_snap "[(nodeN, [nodeN])]"]
  by (simp add: ex_opts_fields ex_run_N_1)

text \<open>
  What the traversal itself guarantees. For a run of the command that returns
  \<open>r\<close>, block \<open>i\<close> of the output belongs to upstream item \<open>i\<close>, and:
  \<^item> within one block no buid occurs twice, the source emitted by \<^verbatim>\<open>join\<close> included,
    and the traversal never yields its own source;
  \<^item> every item the traversal yields lies at least 1 and at most \<^verbatim>\<open>degrees\<close> hops
    from its source, along a chain of \<^verbatim>\<open>getRefs\<close> candidates that its path records;
  \<^item> with \<^verbatim>\<open>unique\<close> set, no buid occurs twice among the items the traversals of all
    blocks yield, and no traversal yields the buid of its own or an earlier source.
  The source items that \<^verbatim>\<open>join\<close> emits are outside the last statement.
\<close>

lemma noderefs_scope_distinct_and_hops:
  assumes "NoderefsCmd_runStormCmd s opts genr = Some r"
  shows "length (blocks r) \<le> length genr
    \<and> (\<forall>i < length (blocks r).
          block_ok s opts (ndef_props_of s) (nat (degrees opts)) (genr ! i) (blocks r ! i))
    \<and> (unique opts \<longrightarrow>
          distinct (ybuids (concat (map (traversed opts) (blocks r))))
          \<and> (\<forall>i < length (blocks r). \<forall>i' \<le> i.
                buid (fst (genr ! i')) \<notin> set (ybuids (traversed opts (blocks r ! i)))))"
proof (cases "degrees opts < 1")
  case True
  with assms have "blocks r = []" by (auto simp: NoderefsCmd_runStormCmd_def)
  then show ?thesis by simp
next
  case False
  then have k: "degrees opts = int (nat (degrees opts))" by simp
  from False assms have r: "noderefs_for s opts (ndef_props_of s) genr {} = Some r"
    by (simp add: NoderefsCmd_runStormCmd_def)
  from noderefs_for_blocks [OF k r] have b: "length (blocks r) \<le> length genr"
    "\<forall>i < length (blocks r). block_ok s opts (ndef_props_of s) (nat (degrees opts)) (genr ! i) (blocks r ! i)"
    by simp_all
  have "unique opts \<longrightarrow>
          distinct (ybuids (concat (map (traversed opts) (blocks r))))
          \<and> (\<forall>i < length (blocks r). \<forall>i' \<le> i.
                buid (fst (genr ! i')) \<notin> set (ybuids (traversed opts (blocks r ! i))))"
  proof
    assume u: "unique opts"
    from noderefs_for_scoped [OF k u r] have sc: "scoped opts {} genr (blocks r)" .
    from scoped_distinct [OF sc] scoped_sources [OF sc]
    show "distinct (ybuids (concat (map (traversed opts) (blocks r))))
          \<and> (\<forall>i < length (blocks r). \<forall>i' \<le> i.
                buid (fst (genr ! i')) \<notin> set (ybuids (traversed opts (blocks r ! i))))"
      by blast
  qed
  with b show ?thesis by blast
qed

lemma ex_join_unique_twice:
  "NoderefsCmd_runStormCmd ex_snap (ex_opts 1 True True []) [(nodeN, [nodeN]), (nodeN, [nodeN])]
     = Some \<lparr>blocks = [[(nodeN, [nodeN]), (nodeM, [nodeN, nodeM])], [(nodeN, [nodeN])]], failed = None\<rparr>"
  by (simp add: NoderefsCmd_runStormCmd_def ex_ndef_props ex_doRefs_N_1 ex_doRefs_M_1 ex_opts_fields ex_fields)

lemma noderefs_scope_example:
  "NoderefsCmd_runStormCmd ex_snap (ex_opts 1 True True []) [(nodeN, [nodeN]), (nodeM, [nodeM])]
     = Some \<lparr>blocks = [[(nodeN, [nodeN]), (nodeM, [nodeN, nodeM])], [(nodeM, [nodeM])]],
             failed = None\<rparr>
   \<and> block_ok ex_snap (ex_opts 1 True True []) (ndef_props_of ex_snap) 1 (nodeN, [nodeN])
        [(nodeN, [nodeN]), (nodeM, [nodeN, nodeM])]
   \<and> distinct (ybuids (concat (map (traversed (ex_opts 1 True True []))
        [[(nodeN, [nodeN]), (nodeM, [nodeN, nodeM])], [(nodeM, [nodeM])]])))"
proof -
  note t = noderefs_scope_distinct_and_hops [OF ex_join_unique]
  from t have "\<forall>i < 2. block_ok ex_snap (ex_opts 1 True True []) (ndef_props_of ex_snap) 1
        ([(nodeN, [nodeN]), (nodeM, [nodeM])] ! i)
        ([[(nodeN, [nodeN]), (nodeM, [nodeN, nodeM])], [(nodeM, [nodeM])]] ! i)"
    by (simp add: ex_opts_fields)
  from this [rule_format, of 0]
  have "block_ok ex_snap (ex_opts 1 True True []) (ndef_props_of ex_snap) 1
        ([(nodeN, [nodeN]), (nodeM, [nodeM])] ! 0)
        ([[(nodeN, [nodeN]), (nodeM, [nodeN, nodeM])], [(nodeM, [nodeM])]] ! 0)"
    by simp
  moreover from t have "distinct (ybuids (concat (map (traversed (ex_opts 1 True True []))
        [[(nodeN, [nodeN]), (nodeM, [nodeN, nodeM])], [(nodeM, [nodeM])]])))"
    by (simp add: ex_opts_fields)
  ultimately show ?thesis using ex_join_unique by simp
qed

text \<open>
  C1 does not hold of the code when \<^verbatim>\<open>join\<close> and \<^verbatim>\<open>unique\<close> are both set. The option
  \<^verbatim>\<open>--unique\<close> is documented as making the output unique across all input nodes,
  and the command adds every source to the shared visited set; but \<^verbatim>\<open>runStormCmd\<close>
  yields the upstream item for \<^verbatim>\<open>join\<close> before the visited set is consulted.
  \<^item> With the upstream \<open>nodeN\<close>, \<open>nodeM\<close>, where \<open>nodeN\<close> refers to \<open>nodeM\<close>, the command
    yields \<open>nodeN\<close>, then \<open>nodeM\<close> as the neighbour of \<open>nodeN\<close>, then \<open>nodeM\<close> again as
    the second source: buid 2 is yielded twice in the one shared scope.
  \<^item> With the upstream \<open>nodeN\<close>, \<open>nodeN\<close> the command yields \<open>nodeN\<close>, \<open>nodeM\<close>, \<open>nodeN\<close>:
    buid 1 is yielded twice.
\<close>

theorem C1_join_unique_repeats_buid:
  "NoderefsCmd_runStormCmd ex_snap (ex_opts 1 True True []) [(nodeN, [nodeN]), (nodeM, [nodeM])]
     = Some \<lparr>blocks = [[(nodeN, [nodeN]), (nodeM, [nodeN, nodeM])], [(nodeM, [nodeM])]],
             failed = None\<rparr>
   \<and> unique (ex_opts 1 True True []) \<and> join (ex_opts 1 True True [])
   \<and> ybuids (concat [[(nodeN, [nodeN]), (nodeM, [nodeN, nodeM])], [(nodeM, [nodeM])]]) = [1, 2, 2]
   \<and> \<not> distinct (ybuids (concat [[(nodeN, [nodeN]), (nodeM, [nodeN, nodeM])], [(nodeM, [nodeM])]]))
   \<and> NoderefsCmd_runStormCmd ex_snap (ex_opts 1 True True []) [(nodeN, [nodeN]), (nodeN, [nodeN])]
     = Some \<lparr>blocks = [[(nodeN, [nodeN]), (nodeM, [nodeN, nodeM])], [(nodeN, [nodeN])]],
             failed = None\<rparr>
   \<and> ybuids (concat [[(nodeN, [nodeN]), (nodeM, [nodeN, nodeM])], [(nodeN, [nodeN])]]) = [1, 2, 1]
   \<and> \<not> distinct (ybuids (concat [[(nodeN, [nodeN]), (nodeM, [nodeN, nodeM])], [(nodeN, [nodeN])]]))"
  using ex_join_unique ex_join_unique_twice by (simp add: ex_fields ex_opts_fields)

text \<open>
  C7, as the code has it. In a traversal from \<open>srcnode\<close> that started with the visited
  set \<open>vis\<close> (which holds the source's buid):
  \<^item> no node the traversal yields is omitted (its form in \<^verbatim>\<open>omit-form\<close>, or a tag of
    it in \<^verbatim>\<open>omit-tag\<close>);
  \<^item> the first node whose references are enumerated is the source node, whatever
    the omit options say of it, so every node the source refers to is a candidate;
  \<^item> every node whose references were enumerated is the source node itself, or a
    node the traversal yielded that is neither omitted nor excluded from traversal
    (\<^verbatim>\<open>omit-traversal-form\<close>, \<^verbatim>\<open>omit-traversal-tag\<close>);
  \<^item> every candidate, whether excluded from traversal or not, has a buid that was
    visited before the traversal began, or is the buid of an omitted candidate, or
    is yielded exactly once;
  \<^item> when no exception ended the traversal, every item it yielded is excluded from
    traversal, or had its references enumerated, or is in the queue that the last
    round left for a round that did not take place.
\<close>

theorem C7_omit_and_omit_traversal:
  assumes "1 \<le> degrees opts" and "doRefs s opts np srcnode srcpath vis = Some t"
  shows "(\<forall>x \<in> set (yielded t). \<not> omitted opts (fst x))
    \<and> expanded t \<noteq> [] \<and> hd (expanded t) = srcnode
    \<and> set (refs s opts np srcnode) \<subseteq> candidates s opts np t
    \<and> (\<forall>n \<in> set (expanded t).
          n = srcnode
          \<or> (n \<in> fst ` set (yielded t) \<and> \<not> omitted opts n \<and> \<not> omitted_traversal opts n))
    \<and> (\<forall>c \<in> candidates s opts np t.
          buid c \<in> vis
          \<or> (\<exists>c' \<in> candidates s opts np t. buid c' = buid c \<and> omitted opts c')
          \<or> count_list (ybuids (yielded t)) (buid c) = 1)
    \<and> (raised t = None \<longrightarrow>
          (\<forall>x \<in> set (yielded t).
             omitted_traversal opts (fst x) \<or> fst x \<in> set (expanded t) \<or> x \<in> set (newqueue t)))"
proof -
  from assms(1) have k: "degrees opts = int (nat (degrees opts))" by simp
  note sm = doRefs_summary [OF k assms(2)]
  from sm(1) have y: "\<forall>x \<in> set (yielded t). \<not> omitted opts (fst x)"
    and d: "distinct (ybuids (yielded t))"
    by (simp_all add: trav_inv_def)
  from sm(3) y have e: "\<forall>n \<in> set (expanded t).
          n = srcnode
          \<or> (n \<in> fst ` set (yielded t) \<and> \<not> omitted opts n \<and> \<not> omitted_traversal opts n)"
    by (fastforce simp: exp_inv_def)
  have c: "\<forall>c \<in> candidates s opts np t.
          buid c \<in> vis
          \<or> (\<exists>c' \<in> candidates s opts np t. buid c' = buid c \<and> omitted opts c')
          \<or> count_list (ybuids (yielded t)) (buid c) = 1"
  proof
    fix c assume "c \<in> candidates s opts np t"
    with sm(4) have "buid c \<in> visited t" by (simp add: cov_inv_def)
    with sm(4) have "buid c \<in> vis \<or> buid c \<in> set (ybuids (yielded t))
        \<or> (\<exists>c' \<in> candidates s opts np t. buid c' = buid c \<and> omitted opts c')"
      by (simp add: cov_inv_def)
    with count_list_distinct [OF d, of "buid c"]
    show "buid c \<in> vis
          \<or> (\<exists>c' \<in> candidates s opts np t. buid c' = buid c \<and> omitted opts c')
          \<or> count_list (ybuids (yielded t)) (buid c) = 1"
      by blast
  qed
  from doRefs_source_expanded [OF assms] have h: "expanded t \<noteq> []" "hd (expanded t) = srcnode"
    by simp_all
  then have "srcnode \<in> set (expanded t)" by (metis hd_in_set)
  then have r: "set (refs s opts np srcnode) \<subseteq> candidates s opts np t"
    by (auto simp: candidates_def)
  have p: "raised t = None \<longrightarrow>
          (\<forall>x \<in> set (yielded t).
             omitted_traversal opts (fst x) \<or> fst x \<in> set (expanded t) \<or> x \<in> set (newqueue t))"
  proof
    assume "raised t = None"
    from doRefs_pending [OF assms this] show "\<forall>x \<in> set (yielded t).
             omitted_traversal opts (fst x) \<or> fst x \<in> set (expanded t) \<or> x \<in> set (newqueue t)"
      by (simp add: pend_inv_def)
  qed
  from y h r e c p show ?thesis by blast
qed

lemma ex_refs: "refs ex_snap opts [] nodeN = [nodeM]" "refs ex_snap opts [] nodeM = [nodeN]"
  by (simp_all add: refs_def ex_getRefs_N ex_getRefs_M)

text \<open>
  From \<open>nodeN\<close> with two degrees and \<^verbatim>\<open>inet:ipv4\<close> in \<^verbatim>\<open>omit-traversal-form\<close>: the second
  round reaches \<open>nodeN\<close> again as a candidate of \<open>nodeM\<close>. It is of the form excluded
  from traversal, yet it is not yielded at all, and its references were enumerated.
\<close>

theorem C7_source_as_candidate:
  "doRefs ex_snap (ex_opts 2 False False [''inet:ipv4'']) [] nodeN [nodeN] {1}
     = Some \<lparr>visited = {1, 2}, newqueue = [], yielded = [(nodeM, [nodeN, nodeM])],
             expanded = [nodeN, nodeM], raised = None\<rparr>
   \<and> nodeN \<in> candidates ex_snap (ex_opts 2 False False [''inet:ipv4'']) []
        \<lparr>visited = {1, 2}, newqueue = [], yielded = [(nodeM, [nodeN, nodeM])],
         expanded = [nodeN, nodeM], raised = None\<rparr>
   \<and> omitted_traversal (ex_opts 2 False False [''inet:ipv4'']) nodeN
   \<and> count_list (ybuids [(nodeM, [nodeN, nodeM])]) (buid nodeN) = 0
   \<and> nodeN \<in> set [nodeN, nodeM]"
  using ex_doRefs_N_2 by (simp add: candidates_def ex_refs ex_omitted_traversal ex_fields)

lemma ex_doRefs_N_2_dnsa:
  "doRefs ex_snap (ex_opts 2 False False [''inet:dns:a'']) [] nodeN [nodeN] {1} =
     Some \<lparr>visited = {1, 2}, newqueue = [], yielded = [(nodeM, [nodeN, nodeM])],
            expanded = [nodeN], raised = None\<rparr>"
  using doRefs_rounds_eq [of "ex_opts 2 False False [''inet:dns:a'']" 2 ex_snap "[]" nodeN "[nodeN]" "{1}"]
  by (simp add: ex_opts_fields trav_start_def ex_getRefs_N ex_getRefs_M ex_fields ex_omitted
      ex_omitted_traversal numeral_2_eq_2 insert_commute)

theorem C7_omit_traversal_witness:
  "doRefs ex_snap (ex_opts 2 False False [''inet:dns:a'']) [] nodeN [nodeN] {1}
     = Some \<lparr>visited = {1, 2}, newqueue = [], yielded = [(nodeM, [nodeN, nodeM])],
             expanded = [nodeN], raised = None\<rparr>
   \<and> omitted_traversal (ex_opts 2 False False [''inet:dns:a'']) nodeM
   \<and> count_list (ybuids [(nodeM, [nodeN, nodeM])]) (buid nodeM) = 1
   \<and> nodeM \<notin> set [nodeN]
   \<and> hd [nodeN] = nodeN
   \<and> nodeM \<in> set (refs ex_snap (ex_opts 2 False False [''inet:dns:a'']) [] nodeN)"
proof -
  have d: "1 \<le> degrees (ex_opts 2 False False [''inet:dns:a''])" by (simp add: ex_opts_fields)
  note t = C7_omit_and_omit_traversal [OF d ex_doRefs_N_2_dnsa]
  have c: "nodeM \<in> candidates ex_snap (ex_opts 2 False False [''inet:dns:a'']) []
        \<lparr>visited = {1, 2}, newqueue = [], yielded = [(nodeM, [nodeN, nodeM])],
         expanded = [nodeN], raised = None\<rparr>"
    by (simp add: candidates_def ex_refs)
  from t c have "buid nodeM \<in> {1::nat}
     \<or> (\<exists>c' \<in> candidates ex_snap (ex_opts 2 False False [''inet:dns:a'']) []
        \<lparr>visited = {1, 2}, newqueue = [], yielded = [(nodeM, [nodeN, nodeM])],
         expanded = [nodeN], raised = None\<rparr>. buid c' = buid nodeM
           \<and> omitted (ex_opts 2 False False [''inet:dns:a'']) c')
     \<or> count_list (ybuids [(nodeM, [nodeN, nodeM])]) (buid nodeM) = 1"
    by simp
  then have "count_list (ybuids [(nodeM, [nodeN, nodeM])]) (buid nodeM) = 1"
    by (simp add: ex_fields ex_omitted)
  moreover have "nodeM \<noteq> nodeN" by (simp add: nodeM_def nodeN_def)
  ultimately show ?thesis
    using ex_doRefs_N_2_dnsa by (simp add: ex_omitted_traversal ex_fields ex_refs)
qed

section \<open>Properties of MoveTagCmd\<close>

lemma dotted_prefix_iff: "dotted_prefix a b \<longleftrightarrow> (\<exists>rest. b = a @ CHR ''.'' # rest)"
proof
  assume "dotted_prefix a b"
  then have t: "take (Suc (length a)) b = a @ ''.''" by (simp add: dotted_prefix_def)
  have "b = take (Suc (length a)) b @ drop (Suc (length a)) b" by simp
  with t have "b = a @ CHR ''.'' # drop (Suc (length a)) b" by simp
  then show "\<exists>rest. b = a @ CHR ''.'' # rest" by blast
next
  assume "\<exists>rest. b = a @ CHR ''.'' # rest"
  then show "dotted_prefix a b" by (auto simp: dotted_prefix_def)
qed

lemma in_tree_iff:
  "in_tree old t \<longleftrightarrow> (\<exists>s. t = old @ s \<and> (s = [] \<or> (\<exists>rest. s = CHR ''.'' # rest)))"
  by (auto simp: in_tree_def dotted_prefix_iff)

lemma renamed_append [simp]: "renamed old new (old @ s) = new @ s"
  by (simp add: renamed_def)

lemma renamed_old [simp]: "renamed old new old = new"
  by (simp add: renamed_def)

lemma renamed_inj:
  "in_tree old t \<Longrightarrow> in_tree old t' \<Longrightarrow> renamed old new t = renamed old new t' \<Longrightarrow> t = t'"
  by (auto simp: in_tree_iff)

lemma renamed_not_in_tree:
  assumes "\<not> in_tree old new" and "\<not> in_tree new old" and "in_tree old t"
  shows "\<not> in_tree old (renamed old new t)"
proof
  assume r: "in_tree old (renamed old new t)"
  from assms(3) obtain s where s: "t = old @ s" "s = [] \<or> (\<exists>rest. s = CHR ''.'' # rest)"
    by (auto simp: in_tree_iff)
  from r s(1) obtain u where u: "new @ s = old @ u" "u = [] \<or> (\<exists>rest. u = CHR ''.'' # rest)"
    by (auto simp: in_tree_iff)
  from u(1) consider (a) e where "new = old @ e" "u = e @ s" | (b) e where "old = new @ e" "s = e @ u"
    by (auto simp: append_eq_append_conv2)
  then show False
  proof cases
    case a
    show False
    proof (cases e)
      case Nil
      with a assms(1) show False by (simp add: in_tree_def)
    next
      case (Cons c e')
      with a u(2) have "c = CHR ''.''" by auto
      with a Cons assms(1) show False by (auto simp: in_tree_iff)
    qed
  next
    case b
    show False
    proof (cases e)
      case Nil
      with b assms(2) show False by (simp add: in_tree_def)
    next
      case (Cons c e')
      with b s(2) have "c = CHR ''.''" by auto
      with b Cons assms(2) show False by (auto simp: in_tree_iff)
    qed
  qed
qed

lemma defined_iff_key: "map_of al k \<noteq> None \<longleftrightarrow> k \<in> set (map fst al)"
  by (simp add: map_of_eq_None_iff)

lemma addNode_map:
  "map_of (tagdefs (fst (addNode st name))) =
     (if map_of (tagdefs st) name = None
      then (map_of (tagdefs st))(name \<mapsto> \<lparr>doc = None, title = None, isnow = None\<rparr>)
      else map_of (tagdefs st))"
  by (auto simp: addNode_def map_of_append fun_eq_iff map_add_def split: option.splits)

lemma addNode_defined:
  "map_of (tagdefs st) name = Some td \<Longrightarrow> addNode st name = (st, name)"
  by (simp add: addNode_def)

lemma addNode_name [simp]: "snd (addNode st name) = name"
  by (simp add: addNode_def split: option.splits)

lemma addNode_nodes [simp]: "nodes (fst (addNode st name)) = nodes st"
  by (simp add: addNode_def split: option.splits)

lemma addNode_keys:
  "map fst (tagdefs (fst (addNode st name))) =
     map fst (tagdefs st) @ (if map_of (tagdefs st) name = None then [name] else [])"
  by (simp add: addNode_def split: option.splits)

lemma syntag_set_map:
  "map_of (tagdefs (syntag_set st name f)) =
     (case map_of (tagdefs st) name of
        None \<Rightarrow> map_of (tagdefs st)
      | Some td \<Rightarrow> (map_of (tagdefs st))(name \<mapsto> f td))"
  by (simp add: syntag_set_def update_conv' split: option.splits)

lemma syntag_set_triv:
  "map_of (tagdefs st) name = Some td \<Longrightarrow> f td = td \<Longrightarrow> syntag_set st name f = st"
  by (simp add: syntag_set_def update_triv)

lemma syntag_set_undefined:
  "map_of (tagdefs st) name = None \<Longrightarrow> syntag_set st name f = st"
  by (simp add: syntag_set_def)

lemma syntag_set_nodes [simp]: "nodes (syntag_set st name f) = nodes st"
  by (simp add: syntag_set_def split: option.splits)

lemma syntag_set_keys [simp]: "map fst (tagdefs (syntag_set st name f)) = map fst (tagdefs st)"
proof (cases "map_of (tagdefs st) name")
  case None
  then show ?thesis by (simp add: syntag_set_def)
next
  case (Some td)
  then have "name \<in> set (map fst (tagdefs st))" by (auto dest: map_of_SomeD intro: rev_image_eqI)
  with Some show ?thesis by (simp add: syntag_set_def update_keys)
qed

lemma copy_prop_nodes [simp]: "nodes (copy_prop st src dst prp put) = nodes st"
  by (simp add: copy_prop_def split: option.splits)

lemma copy_prop_keys [simp]: "map fst (tagdefs (copy_prop st src dst prp put)) = map fst (tagdefs st)"
  by (simp add: copy_prop_def split: option.splits)

lemma copy_prop_other:
  "k \<noteq> dst \<Longrightarrow> map_of (tagdefs (copy_prop st src dst prp put)) k = map_of (tagdefs st) k"
  by (simp add: copy_prop_def syntag_set_map split: option.splits)

lemma copy_prop_dst:
  assumes "map_of (tagdefs st) dst = Some tdn" and "src \<noteq> dst"
  shows "map_of (tagdefs (copy_prop st src dst prp put)) dst =
           Some (case map_of (tagdefs st) src of
                   None \<Rightarrow> tdn
                 | Some td \<Rightarrow> (case prp td of None \<Rightarrow> tdn | Some v \<Rightarrow> put v tdn))"
  using assms
  by (simp add: copy_prop_def syntag_get_def syntag_set_map split: option.splits)

lemma copy_prop_triv:
  assumes "map_of (tagdefs st) dst = Some tdn"
    and "\<And>td v. map_of (tagdefs st) src = Some td \<Longrightarrow> prp td = Some v \<Longrightarrow> put v tdn = tdn"
  shows "copy_prop st src dst prp put = st"
  using assms
  by (auto simp: copy_prop_def syntag_get_def split: option.splits intro: syntag_set_triv)

lemma isnow_step_retag:
  "snd (isnow_step old new (length old) (st, r) t) =
     (if t = old then r else r(t \<mapsto> renamed old new t))"
  by (simp add: isnow_step_def renamed_def Let_def)

lemma isnow_step_nodes [simp]:
  "nodes (fst (isnow_step old new k (st, r) t)) = nodes st"
  by (simp add: isnow_step_def Let_def)

lemma isnow_step_keys:
  "map fst (tagdefs (fst (isnow_step old new (length old) (st, r) t))) =
     map fst (tagdefs st) @
       (if t \<noteq> old \<and> map_of (tagdefs st) (renamed old new t) = None then [renamed old new t] else [])"
  by (simp add: isnow_step_def Let_def addNode_keys renamed_def)

lemma isnow_step_other:
  assumes "k \<noteq> t" and "k \<noteq> renamed old new t"
  shows "map_of (tagdefs (fst (isnow_step old new (length old) (st, r) t))) k = map_of (tagdefs st) k"
proof (cases "t = old")
  case True
  with assms show ?thesis by (simp add: isnow_step_def syntag_set_map split: option.splits)
next
  case False
  let ?n = "new @ drop (length old) t"
  from assms have k: "k \<noteq> t" "k \<noteq> ?n" by (simp_all add: renamed_def)
  have 1: "map_of (tagdefs (fst (addNode st ?n))) k = map_of (tagdefs st) k"
    using k by (simp add: addNode_map)
  show ?thesis
    using False k 1
    by (simp add: isnow_step_def Let_def syntag_set_map copy_prop_other split: option.splits)
qed

lemma isnow_step_settled_id:
  assumes "settled old new st t"
  shows "fst (isnow_step old new (length old) (st, r) t) = st"
proof (cases "t = old")
  case True
  with assms show ?thesis
    by (cases "map_of (tagdefs st) old")
       (simp_all add: isnow_step_def settled_def syntag_set_triv syntag_set_undefined)
next
  case False
  let ?n = "new @ drop (length old) t"
  from assms False obtain tdn where n: "map_of (tagdefs st) ?n = Some tdn"
    by (auto simp: settled_def renamed_def split: option.splits)
  then have a: "fst (addNode st ?n) = st" by (simp add: addNode_defined)
  have d: "copy_prop st t ?n doc (\<lambda>olddoc td. td\<lparr>doc := Some olddoc\<rparr>) = st"
    using assms False n by (intro copy_prop_triv [OF n]) (auto simp: settled_def renamed_def)
  have ti: "copy_prop st t ?n title (\<lambda>oldtitle td. td\<lparr>title := Some oldtitle\<rparr>) = st"
    using assms False n by (intro copy_prop_triv [OF n]) (auto simp: settled_def renamed_def)
  have i: "syntag_set st t (\<lambda>td. td\<lparr>isnow := Some ?n\<rparr>) = st"
  proof (cases "map_of (tagdefs st) t")
    case None
    then show ?thesis by (rule syntag_set_undefined)
  next
    case (Some td)
    with assms False n have "isnow td = Some ?n" by (simp add: settled_def renamed_def)
    with Some show ?thesis by (auto intro: syntag_set_triv)
  qed
  show ?thesis
    using False a d ti i by (simp add: isnow_step_def Let_def)
qed

lemma isnow_step_settles:
  "settled old new (fst (isnow_step old new (length old) (st, r) t)) t"
proof (cases "t = old")
  case True
  then show ?thesis
    by (cases "map_of (tagdefs st) old")
       (simp_all add: isnow_step_def settled_def syntag_set_map)
next
  case False
  let ?n = "new @ drop (length old) t"
  show ?thesis
  proof (cases "renamed old new t = t")
    case same: True
    then have e: "?n = t" by (simp add: renamed_def)
    let ?s1 = "fst (addNode st t)"
    obtain b where b: "map_of (tagdefs ?s1) t = Some b"
      by (cases "map_of (tagdefs st) t") (auto simp: addNode_map)
    have d: "copy_prop ?s1 t t doc (\<lambda>olddoc td. td\<lparr>doc := Some olddoc\<rparr>) = ?s1"
      using b by (intro copy_prop_triv [OF b]) auto
    have ti: "copy_prop ?s1 t t title (\<lambda>oldtitle td. td\<lparr>title := Some oldtitle\<rparr>) = ?s1"
      using b by (intro copy_prop_triv [OF b]) auto
    have "fst (isnow_step old new (length old) (st, r) t) = syntag_set ?s1 t (\<lambda>td. td\<lparr>isnow := Some t\<rparr>)"
      using False e d ti by (simp add: isnow_step_def Let_def)
    then show ?thesis
      using False same b by (simp add: settled_def syntag_set_map)
  next
    case diff: False
    then have ne: "t \<noteq> ?n" by (auto simp: renamed_def)
    let ?s1 = "fst (addNode st ?n)"
    let ?s2 = "copy_prop ?s1 t ?n doc (\<lambda>olddoc td. td\<lparr>doc := Some olddoc\<rparr>)"
    let ?s3 = "copy_prop ?s2 t ?n title (\<lambda>oldtitle td. td\<lparr>title := Some oldtitle\<rparr>)"
    let ?s4 = "syntag_set ?s3 t (\<lambda>td. td\<lparr>isnow := Some ?n\<rparr>)"
    obtain b where b: "map_of (tagdefs ?s1) ?n = Some b"
      by (cases "map_of (tagdefs st) ?n") (auto simp: addNode_map)
    have t1: "map_of (tagdefs ?s1) t = map_of (tagdefs st) t"
      using ne by (simp add: addNode_map)
    have t2: "map_of (tagdefs ?s2) t = map_of (tagdefs st) t"
      using ne t1 by (simp add: copy_prop_other)
    have t3: "map_of (tagdefs ?s3) t = map_of (tagdefs st) t"
      using ne t2 by (simp add: copy_prop_other)
    have n2: "map_of (tagdefs ?s2) ?n =
        Some (case map_of (tagdefs st) t of None \<Rightarrow> b
              | Some td \<Rightarrow> (case doc td of None \<Rightarrow> b | Some v \<Rightarrow> b\<lparr>doc := Some v\<rparr>))"
      using copy_prop_dst [OF b ne, of doc "\<lambda>olddoc td. td\<lparr>doc := Some olddoc\<rparr>"] t1 by simp
    from copy_prop_dst [OF n2 ne, of title "\<lambda>oldtitle td. td\<lparr>title := Some oldtitle\<rparr>"] t2
    have n3: "map_of (tagdefs ?s3) ?n =
        Some (case map_of (tagdefs st) t of
                None \<Rightarrow> b
              | Some td \<Rightarrow>
                  (case title td of
                     None \<Rightarrow> (case doc td of None \<Rightarrow> b | Some v \<Rightarrow> b\<lparr>doc := Some v\<rparr>)
                   | Some w \<Rightarrow> (case doc td of None \<Rightarrow> b | Some v \<Rightarrow> b\<lparr>doc := Some v\<rparr>)\<lparr>title := Some w\<rparr>))"
      by (simp split: option.splits)
    have e: "fst (isnow_step old new (length old) (st, r) t) = ?s4"
      using False by (simp add: isnow_step_def Let_def)
    show ?thesis
      unfolding e using False ne n3 t3
      by (auto simp: settled_def renamed_def syntag_set_map split: option.splits)
  qed
qed

lemma foldl_isnow_retag:
  "snd (foldl (isnow_step old new (length old)) (st, r) ts) =
     (\<lambda>t. if t \<in> set ts \<and> t \<noteq> old then Some (renamed old new t) else r t)"
proof (induction ts arbitrary: st r)
  case Nil
  show ?case by simp
next
  case (Cons t ts)
  obtain st' r' where s: "isnow_step old new (length old) (st, r) t = (st', r')"
    by (cases "isnow_step old new (length old) (st, r) t")
  from isnow_step_retag [of old new st r t] s
  have r': "r' = (if t = old then r else r(t \<mapsto> renamed old new t))" by simp
  show ?case
    using Cons [of st' r'] s r' by (auto simp: fun_eq_iff)
qed

lemma foldl_isnow_nodes [simp]:
  "nodes (fst (foldl (isnow_step old new k) (st, r) ts)) = nodes st"
proof (induction ts arbitrary: st r)
  case Nil
  show ?case by simp
next
  case (Cons t ts)
  obtain st' r' where s: "isnow_step old new k (st, r) t = (st', r')"
    by (cases "isnow_step old new k (st, r) t")
  from isnow_step_nodes [of old new k st r t] s have "nodes st' = nodes st" by simp
  with Cons [of st' r'] s show ?case by simp
qed

lemma isnow_step_keys_mono:
  "set (map fst (tagdefs st)) \<subseteq> set (map fst (tagdefs (fst (isnow_step old new (length old) (st, r) t))))"
  by (auto simp: isnow_step_keys)

lemma foldl_isnow_keys:
  assumes "\<forall>t \<in> set ts. \<not> in_tree old (renamed old new t)
             \<or> renamed old new t \<in> set (map fst (tagdefs st))"
  shows "filter (in_tree old) (map fst (tagdefs (fst (foldl (isnow_step old new (length old)) (st, r) ts))))
         = filter (in_tree old) (map fst (tagdefs st))"
  using assms
proof (induction ts arbitrary: st r)
  case Nil
  show ?case by simp
next
  case (Cons t ts)
  obtain st' r' where s: "isnow_step old new (length old) (st, r) t = (st', r')"
    by (cases "isnow_step old new (length old) (st, r) t")
  from Cons.prems defined_iff_key [of "tagdefs st" "renamed old new t"]
  have "\<not> in_tree old (renamed old new t)
      \<or> map_of (tagdefs st) (renamed old new t) \<noteq> None"
    by auto
  with isnow_step_keys [of old new st r t] s
  have e: "filter (in_tree old) (map fst (tagdefs st')) = filter (in_tree old) (map fst (tagdefs st))"
    by auto
  from isnow_step_keys_mono [of st old new r t] s
  have "set (map fst (tagdefs st)) \<subseteq> set (map fst (tagdefs st'))" by simp
  with Cons.prems have "\<forall>t \<in> set ts. \<not> in_tree old (renamed old new t)
             \<or> renamed old new t \<in> set (map fst (tagdefs st'))"
    by auto
  from Cons.IH [OF this, of r'] e s show ?case by simp
qed

lemma settled_cong:
  assumes "map_of (tagdefs st') t = map_of (tagdefs st) t"
    and "map_of (tagdefs st') (renamed old new t) = map_of (tagdefs st) (renamed old new t)"
  shows "settled old new st' t = settled old new st t"
  by (simp only: settled_def assms)

lemma foldl_isnow_settled:
  assumes sep: "\<And>t t0. t \<in> T \<Longrightarrow> t0 \<in> T \<Longrightarrow> t \<noteq> t0 \<Longrightarrow>
             t \<noteq> renamed old new t0 \<and> renamed old new t \<noteq> renamed old new t0"
    and "set ts \<subseteq> T" and "G \<subseteq> T"
    and "\<forall>t \<in> G. settled old new st t"
  shows "\<forall>t \<in> G \<union> set ts. settled old new (fst (foldl (isnow_step old new (length old)) (st, r) ts)) t"
  using assms(2,3,4)
proof (induction ts arbitrary: st r G)
  case Nil
  then show ?case by simp
next
  case (Cons t0 ts)
  obtain st' r' where s: "isnow_step old new (length old) (st, r) t0 = (st', r')"
    by (cases "isnow_step old new (length old) (st, r) t0")
  from Cons.prems(1) have t0: "t0 \<in> T" by simp
  from isnow_step_settles [of old new st r t0] s have s0: "settled old new st' t0" by simp
  have "\<forall>t \<in> insert t0 G. settled old new st' t"
  proof
    fix t assume t: "t \<in> insert t0 G"
    show "settled old new st' t"
    proof (cases "t = t0")
      case True
      with s0 show ?thesis by simp
    next
      case False
      with t Cons.prems(2,3) have g: "t \<in> T" "settled old new st t" by auto
      from sep [OF g(1) t0 False]
      have 1: "t \<noteq> renamed old new t0" and 3: "renamed old new t \<noteq> renamed old new t0"
        by simp_all
      from sep [OF t0 g(1)] False have 2: "renamed old new t \<noteq> t0" by auto
      from isnow_step_other [OF False 1, of st r] s
      have a: "map_of (tagdefs st') t = map_of (tagdefs st) t" by simp
      from isnow_step_other [OF 2 3, of st r] s
      have b: "map_of (tagdefs st') (renamed old new t) = map_of (tagdefs st) (renamed old new t)" by simp
      from settled_cong [OF a b] g show ?thesis by simp
    qed
  qed
  moreover from Cons.prems(1) have "set ts \<subseteq> T" by simp
  moreover from Cons.prems(2) t0 have "insert t0 G \<subseteq> T" by simp
  ultimately have "\<forall>t \<in> insert t0 G \<union> set ts.
      settled old new (fst (foldl (isnow_step old new (length old)) (st', r') ts)) t"
    by (intro Cons.IH)
  with s show ?case by simp
qed

lemma foldl_isnow_settled_id:
  "\<forall>t \<in> set ts. settled old new st t \<Longrightarrow>
     fst (foldl (isnow_step old new (length old)) (st, r) ts) = st"
proof (induction ts arbitrary: r)
  case Nil
  show ?case by simp
next
  case (Cons t ts)
  obtain st' r' where s: "isnow_step old new (length old) (st, r) t = (st', r')"
    by (cases "isnow_step old new (length old) (st, r) t")
  from isnow_step_settled_id [of old new st t r] Cons.prems s have "st' = st" by simp
  with Cons.IH [of r'] Cons.prems s show ?case by simp
qed

lemma foldl_retag_item_id:
  "\<forall>x \<in> set items. r (fst x) = None \<Longrightarrow> foldl (retag_item r) n items = n"
  by (induction items arbitrary: n) (auto simp: retag_item_def)

lemma retag_node_clean_id: "clean r n \<Longrightarrow> retag_node r n = n"
  unfolding retag_node_def
  by (rule foldl_retag_item_id) (auto simp: clean_def)

lemma retag_item_keys:
  assumes "\<forall>k v. r k = Some v \<longrightarrow> r v = None"
  shows "{k \<in> fst ` set (tags (retag_item r n item)). r k \<noteq> None}
         \<subseteq> {k \<in> fst ` set (tags n). r k \<noteq> None} - {fst item}"
proof (cases item)
  case (Pair name valu)
  show ?thesis
  proof (cases "r name")
    case None
    with Pair show ?thesis by (auto simp: retag_item_def)
  next
    case (Some newt)
    with assms have "r newt = None" by simp
    with Pair Some show ?thesis
      using dom_delete_subset [of name "tags n"] delete_notin_dom [of name "tags n"]
      by (auto simp: retag_item_def addTag_def delTag_def dom_update)
  qed
qed

lemma foldl_retag_item_keys:
  assumes "\<forall>k v. r k = Some v \<longrightarrow> r v = None"
  shows "{k \<in> fst ` set (tags (foldl (retag_item r) n items)). r k \<noteq> None}
         \<subseteq> {k \<in> fst ` set (tags n). r k \<noteq> None} - fst ` set items"
proof (induction items arbitrary: n)
  case Nil
  show ?case by simp
next
  case (Cons item items)
  from Cons [of "retag_item r n item"] retag_item_keys [OF assms, of n item]
  show ?case by (simp only: foldl_Cons list.set image_insert) blast
qed

lemma retag_node_cleans:
  assumes "\<forall>k v. r k = Some v \<longrightarrow> r v = None"
  shows "clean r (retag_node r n)"
proof -
  have "fst ` set (rev (sort_key fst (tags n))) = fst ` set (tags n)" by simp
  with foldl_retag_item_keys [OF assms, of n "rev (sort_key fst (tags n))"]
  have "{k \<in> fst ` set (tags (retag_node r n)). r k \<noteq> None} = {}"
    unfolding retag_node_def by blast
  then show ?thesis by (auto simp: clean_def)
qed

lemma retag_item_buid [simp]: "buid (retag_item r n item) = buid n"
  by (cases item) (simp add: retag_item_def addTag_def delTag_def split: option.splits)

lemma retag_node_buid [simp]: "buid (retag_node r n) = buid n"
proof -
  have "buid (foldl (retag_item r) n items) = buid n" for items
    by (induction items arbitrary: n) simp_all
  then show ?thesis by (simp add: retag_node_def)
qed

lemma foldl_retag_step_tagdefs [simp]:
  "tagdefs (fst (foldl (retag_step r) (st, c) bs)) = tagdefs st"
  by (induction bs arbitrary: st c) (simp_all add: retag_step_def)

lemma foldl_retag_step_fixed:
  "\<forall>n \<in> set (nodes st). retag_node r n = n \<Longrightarrow> fst (foldl (retag_step r) (st, c) bs) = st"
proof (induction bs arbitrary: c)
  case Nil
  show ?case by simp
next
  case (Cons b bs)
  have "map (\<lambda>n. if buid n = b then retag_node r n else n) (nodes st) = nodes st"
    using Cons.prems by (simp add: map_idI)
  then have "retag_step r (st, c) b = (st, c + 1)" by (simp add: retag_step_def)
  with Cons.IH [OF Cons.prems, of "c + 1"] show ?case by simp
qed

lemma foldl_retag_step_cleans:
  assumes "\<forall>k v. r k = Some v \<longrightarrow> r v = None"
  shows "\<forall>n \<in> set (nodes st). clean r n \<or> buid n \<in> set bs \<Longrightarrow>
         \<forall>n \<in> set (nodes (fst (foldl (retag_step r) (st, c) bs))). clean r n"
proof (induction bs arbitrary: st c)
  case Nil
  then show ?case by simp
next
  case (Cons b bs)
  let ?st = "st\<lparr>nodes := map (\<lambda>n. if buid n = b then retag_node r n else n) (nodes st)\<rparr>"
  have "\<forall>n \<in> set (nodes ?st). clean r n \<or> buid n \<in> set bs"
    using Cons.prems retag_node_cleans [OF assms] by auto
  from Cons.IH [OF this, of "c + 1"] show ?case by (simp add: retag_step_def)
qed

lemma foldl_isnow_keys_mono:
  "set (map fst (tagdefs st)) \<subseteq> set (map fst (tagdefs (fst (foldl (isnow_step old new (length old)) (st, r) ts))))"
proof (induction ts arbitrary: st r)
  case Nil
  show ?case by simp
next
  case (Cons t ts)
  obtain st' r' where s: "isnow_step old new (length old) (st, r) t = (st', r')"
    by (cases "isnow_step old new (length old) (st, r) t")
  from isnow_step_keys [of old new st r t] s
  have "set (map fst (tagdefs st)) \<subseteq> set (map fst (tagdefs st'))" by auto
  with Cons [of st' r'] s show ?case by auto
qed

lemma movetag_unfold:
  "movetag st old new =
     fst (foldl (retag_step (snd (movetag_defs st old new))) (fst (movetag_defs st old new), 0)
            (getNodesBy_tag (fst (movetag_defs st old new)) old))"
  by (simp add: movetag_def MoveTagCmd_runStormCmd_def split_beta)

lemma movetag_defs_unfold:
  "movetag_defs st old new =
     foldl (isnow_step old new (length old))
       (fst (addNode (fst (addNode st old)) new), [old \<mapsto> new])
       (getNodesBy_pref (fst (addNode (fst (addNode st old)) new)) old)"
  by (simp add: movetag_defs_def split_beta)

lemma addNode_defines: "name \<in> set (map fst (tagdefs (fst (addNode st name))))"
  by (cases "map_of (tagdefs st) name") (auto simp: addNode_keys dest: map_of_SomeD intro: rev_image_eqI)

lemma addNode_keys_mono: "set (map fst (tagdefs st)) \<subseteq> set (map fst (tagdefs (fst (addNode st name))))"
  by (auto simp: addNode_keys)

lemma addNode_key_id: "name \<in> set (map fst (tagdefs st)) \<Longrightarrow> addNode st name = (st, name)"
proof -
  assume "name \<in> set (map fst (tagdefs st))"
  then have "map_of (tagdefs st) name \<noteq> None" by (rule iffD2 [OF defined_iff_key])
  then obtain td where "map_of (tagdefs st) name = Some td" by blast
  then show ?thesis by (rule addNode_defined)
qed

lemma renamed_same: "in_tree old t \<Longrightarrow> renamed old old t = t"
  by (auto simp: in_tree_iff)

lemma addNode_keys_set:
  "set (map fst (tagdefs (fst (addNode st name)))) = insert name (set (map fst (tagdefs st)))"
proof (cases "map_of (tagdefs st) name")
  case None
  then show ?thesis by (simp add: addNode_keys)
next
  case (Some td)
  with defined_iff_key [of "tagdefs st" name] have "name \<in> set (map fst (tagdefs st))" by simp
  with Some show ?thesis by (auto simp: addNode_keys)
qed

lemma set_lifted:
  "set (getNodesBy_pref (fst (addNode (fst (addNode st old)) new)) old) = tree_defs st old new"
proof -
  have "set (filter (in_tree old) (map fst (tagdefs (fst (addNode (fst (addNode st old)) new)))))
      = {t \<in> insert new (insert old (set (map fst (tagdefs st)))). in_tree old t}"
    by (simp only: set_filter addNode_keys_set)
  also have "\<dots> = tree_defs st old new" by (auto simp: tree_defs_def)
  finally show ?thesis by (simp add: getNodesBy_pref_def)
qed

lemma tree_defs_in_tree: "t \<in> tree_defs st old new \<Longrightarrow> in_tree old t"
  by (auto simp: tree_defs_def split: if_splits)

lemma old_in_tree_defs: "old \<in> tree_defs st old new"
  by (simp add: tree_defs_def in_tree_def)

lemma unrelated_tree_defs:
  assumes "\<not> in_tree old new" and "\<not> in_tree new old"
  shows "\<forall>t \<in> tree_defs st old new. \<not> in_tree old (renamed old new t)"
  using renamed_not_in_tree [OF assms] tree_defs_in_tree by blast

text \<open>
  The facts about one run that the second run rests on, when no tag-definition of
  the tree is renamed into the tree, or the two tags are the same.
\<close>

lemma movetag_run:
  fixes st :: store and old new :: string
  assumes A: "(\<forall>t \<in> tree_defs st old new. \<not> in_tree old (renamed old new t)) \<or> old = new"
  defines "st2 \<equiv> fst (addNode (fst (addNode st old)) new)"
  defines "L \<equiv> getNodesBy_pref st2 old"
  defines "r \<equiv> snd (movetag_defs st old new)"
  shows "r = (\<lambda>t. if t \<in> set L \<and> t \<noteq> old then Some (renamed old new t) else [old \<mapsto> new] t)"
    and "\<forall>t \<in> set L. settled old new (fst (movetag_defs st old new)) t"
    and "getNodesBy_pref (fst (movetag_defs st old new)) old = L"
    and "old \<in> set (map fst (tagdefs (fst (movetag_defs st old new))))"
    and "new \<in> set (map fst (tagdefs (fst (movetag_defs st old new))))"
    and "set L = tree_defs st old new"
    and "\<forall>k. r k \<noteq> None \<longrightarrow> in_tree old k"
    and "nodes (fst (movetag_defs st old new)) = nodes st"
proof -
  show sL: "set L = tree_defs st old new" unfolding L_def st2_def by (rule set_lifted)
  have Lt: "\<forall>t \<in> set L. in_tree old t" by (simp add: L_def getNodesBy_pref_def)
  have Lk: "set L \<subseteq> set (map fst (tagdefs st2))" by (auto simp: L_def getNodesBy_pref_def)
  have d: "movetag_defs st old new = foldl (isnow_step old new (length old)) (st2, [old \<mapsto> new]) L"
    by (simp add: movetag_defs_unfold st2_def L_def)
  show r: "r = (\<lambda>t. if t \<in> set L \<and> t \<noteq> old then Some (renamed old new t) else [old \<mapsto> new] t)"
    unfolding r_def d by (rule foldl_isnow_retag)
  have sep: "t \<noteq> renamed old new t0 \<and> renamed old new t \<noteq> renamed old new t0"
    if "t \<in> set L" "t0 \<in> set L" "t \<noteq> t0" for t t0
  proof -
    from that Lt have i: "in_tree old t" "in_tree old t0" by auto
    from renamed_inj [OF i] that(3) have 2: "renamed old new t \<noteq> renamed old new t0" by auto
    from A show ?thesis
    proof
      assume "\<forall>t \<in> tree_defs st old new. \<not> in_tree old (renamed old new t)"
      with that(2) sL have "\<not> in_tree old (renamed old new t0)" by simp
      with i(1) 2 show ?thesis by auto
    next
      assume "old = new"
      with renamed_same [OF i(2)] that(3) 2 show ?thesis by simp
    qed
  qed
  from foldl_isnow_settled [of "set L" old new L "{}" st2 "[old \<mapsto> new]"] sep
  show "\<forall>t \<in> set L. settled old new (fst (movetag_defs st old new)) t"
    unfolding d by simp
  have "\<forall>t \<in> set L. \<not> in_tree old (renamed old new t)
             \<or> renamed old new t \<in> set (map fst (tagdefs st2))"
  proof
    fix t assume t: "t \<in> set L"
    from A show "\<not> in_tree old (renamed old new t) \<or> renamed old new t \<in> set (map fst (tagdefs st2))"
    proof
      assume "\<forall>t \<in> tree_defs st old new. \<not> in_tree old (renamed old new t)"
      with t sL show ?thesis by simp
    next
      assume "old = new"
      with t Lt Lk renamed_same [of old t] show ?thesis by auto
    qed
  qed
  from foldl_isnow_keys [OF this, of "[old \<mapsto> new]"]
  show "getNodesBy_pref (fst (movetag_defs st old new)) old = L"
    unfolding d by (simp add: getNodesBy_pref_def L_def)
  have o2: "old \<in> set (map fst (tagdefs st2))"
    unfolding st2_def using addNode_defines [of old st] addNode_keys_mono by blast
  have n2: "new \<in> set (map fst (tagdefs st2))"
    unfolding st2_def by (rule addNode_defines)
  from o2 foldl_isnow_keys_mono [of st2 old new "[old \<mapsto> new]" L]
  show "old \<in> set (map fst (tagdefs (fst (movetag_defs st old new))))"
    unfolding d by blast
  from n2 foldl_isnow_keys_mono [of st2 old new "[old \<mapsto> new]" L]
  show "new \<in> set (map fst (tagdefs (fst (movetag_defs st old new))))"
    unfolding d by blast
  have oldt: "in_tree old old" by (simp add: in_tree_def)
  show "\<forall>k. r k \<noteq> None \<longrightarrow> in_tree old k"
    using Lt oldt by (auto simp: r split: if_splits)
  show "nodes (fst (movetag_defs st old new)) = nodes st"
    unfolding d by (simp add: st2_def)
qed

lemma movetag_run_vals:
  assumes "\<forall>t \<in> tree_defs st old new. \<not> in_tree old (renamed old new t)"
  shows "\<forall>k v. snd (movetag_defs st old new) k = Some v \<longrightarrow> snd (movetag_defs st old new) v = None"
proof (intro allI impI)
  fix k v assume kv: "snd (movetag_defs st old new) k = Some v"
  from assms have A: "(\<forall>t \<in> tree_defs st old new. \<not> in_tree old (renamed old new t)) \<or> old = new"
    by simp
  note run = movetag_run [OF A]
  from kv run(7) have kt: "in_tree old k" by auto
  from kv have "k \<in> tree_defs st old new \<and> v = renamed old new k"
    using old_in_tree_defs [of old st new]
    by (auto simp: run(1) run(6) split: if_splits)
  with assms have "\<not> in_tree old v" by simp
  with run(7) show "snd (movetag_defs st old new) v = None" by auto
qed

lemma not_carries_clean:
  assumes "\<forall>k. r k \<noteq> None \<longrightarrow> in_tree old k" and "\<not> carries old n"
  shows "clean r n"
  using assms by (fastforce simp: clean_def carries_def list_ex_iff)

section \<open>Values kept by the tag rename\<close>

lemma foldl_retag_item_keeps:
  assumes "map_of (tags n) nt = Some v"
    and "\<forall>x \<in> set items. r (fst x) = None \<or> (fst x \<noteq> nt \<and> r (fst x) \<noteq> Some nt)"
  shows "map_of (tags (foldl (retag_item r) n items)) nt = Some v"
  using assms
proof (induction items arbitrary: n)
  case Nil
  then show ?case by simp
next
  case (Cons item items)
  obtain name valu where i: "item = (name, valu)" by (cases item)
  have "map_of (tags (retag_item r n item)) nt = Some v"
  proof (cases "r name")
    case None
    with i Cons.prems(1) show ?thesis by (simp add: retag_item_def)
  next
    case (Some newt)
    with Cons.prems(2) i have "name \<noteq> nt" "newt \<noteq> nt" by auto
    with i Some Cons.prems(1) show ?thesis
      by (simp add: retag_item_def addTag_def delTag_def update_conv' delete_conv')
  qed
  from Cons.IH [OF this] Cons.prems(2) show ?case by simp
qed

lemma foldl_retag_item_value:
  assumes "distinct (map fst items)" and "(name, v) \<in> set items" and "r name = Some nt"
    and "\<forall>k w. r k = Some w \<longrightarrow> r w = None"
    and "\<forall>k k'. r k = Some nt \<and> r k' = Some nt \<longrightarrow> k = k'"
  shows "map_of (tags (foldl (retag_item r) n items)) nt = Some v"
  using assms(1,2)
proof (induction items arbitrary: n)
  case Nil
  then show ?case by simp
next
  case (Cons item items)
  show ?case
  proof (cases "item = (name, v)")
    case True
    have a: "map_of (tags (retag_item r n item)) nt = Some v"
      using True assms(3) by (simp add: retag_item_def addTag_def delTag_def update_conv')
    have "\<forall>x \<in> set items. r (fst x) = None \<or> (fst x \<noteq> nt \<and> r (fst x) \<noteq> Some nt)"
    proof
      fix x assume x: "x \<in> set items"
      with Cons.prems(1) True have ne: "fst x \<noteq> name" by (auto simp: rev_image_eqI)
      show "r (fst x) = None \<or> (fst x \<noteq> nt \<and> r (fst x) \<noteq> Some nt)"
      proof (cases "r (fst x)")
        case None
        then show ?thesis by simp
      next
        case (Some w)
        from assms(3,4) have "r nt = None" by blast
        with Some have 1: "fst x \<noteq> nt" by auto
        from assms(5) assms(3) ne have 2: "r (fst x) \<noteq> Some nt" by blast
        from 1 2 show ?thesis by simp
      qed
    qed
    from foldl_retag_item_keeps [OF a this] show ?thesis by simp
  next
    case False
    with Cons.prems have "distinct (map fst items)" "(name, v) \<in> set items" by auto
    from Cons.IH [OF this] show ?thesis by simp
  qed
qed

lemma retag_node_value:
  assumes "distinct (map fst (tags n))" and "(name, v) \<in> set (tags n)" and "r name = Some nt"
    and "\<forall>k w. r k = Some w \<longrightarrow> r w = None"
    and "\<forall>k k'. r k = Some nt \<and> r k' = Some nt \<longrightarrow> k = k'"
  shows "map_of (tags (retag_node r n)) nt = Some v"
proof -
  have "distinct (map fst (sort_key fst xs)) = distinct (map fst xs)" for xs :: "(string \<times> tagvalu) list"
    by (induction xs) (simp_all add: distinct_insort_key)
  then have "distinct (map fst (rev (sort_key fst (tags n))))"
    using assms(1) by (simp add: rev_map [symmetric])
  moreover have "(name, v) \<in> set (rev (sort_key fst (tags n)))" using assms(2) by simp
  ultimately show ?thesis
    unfolding retag_node_def using assms(3,4,5) by (rule foldl_retag_item_value)
qed

lemma foldl_retag_step_nodes:
  assumes "\<forall>n \<in> set (nodes st). retag_node r (retag_node r n) = retag_node r n"
  shows "nodes (fst (foldl (retag_step r) (st, c) bs)) =
         map (\<lambda>n. if buid n \<in> set bs then retag_node r n else n) (nodes st)"
  using assms
proof (induction bs arbitrary: st c)
  case Nil
  show ?case by simp
next
  case (Cons b bs)
  let ?g = "\<lambda>n. if buid n = b then retag_node r n else n"
  let ?st = "st\<lparr>nodes := map ?g (nodes st)\<rparr>"
  have s: "retag_step r (st, c) b = (?st, c + 1)" by (simp add: retag_step_def)
  have i: "\<forall>n \<in> set (nodes ?st). retag_node r (retag_node r n) = retag_node r n"
    using Cons.prems by auto
  have "map (\<lambda>n. if buid n \<in> set bs then retag_node r n else n) (map ?g (nodes st))
        = map (\<lambda>n. if buid n \<in> set (b # bs) then retag_node r n else n) (nodes st)"
    unfolding map_map comp_def
  proof (rule map_cong [OF refl])
    fix n assume "n \<in> set (nodes st)"
    with Cons.prems have "retag_node r (retag_node r n) = retag_node r n" by simp
    then show "(if buid (?g n) \<in> set bs then retag_node r (?g n) else ?g n)
        = (if buid n \<in> set (b # bs) then retag_node r n else n)"
      by simp
  qed
  with Cons.IH [OF i, of "c + 1"] s show ?case by simp
qed

lemma retag_node_vals_idem:
  assumes "\<forall>k v. r k = Some v \<longrightarrow> r v = None"
  shows "retag_node r (retag_node r n) = retag_node r n"
  using retag_node_cleans [OF assms, of n] by (rule retag_node_clean_id)

subsection \<open>Retagging a tag to itself\<close>

lemma update_absent: "k \<notin> fst ` set al \<Longrightarrow> AList.update k v al = al @ [(k, v)]"
  by (induction al) auto

lemma retag_item_same_tags:
  assumes "r name = Some name"
  shows "tags (retag_item r n (name, v)) = filter (\<lambda>p. fst p \<noteq> name) (tags n) @ [(name, v)]"
proof -
  have "(\<lambda>(k', _). name \<noteq> k') = (\<lambda>p :: string \<times> tagvalu. fst p \<noteq> name)"
    by (auto simp: fun_eq_iff)
  then have d: "AList.delete name (tags n) = filter (\<lambda>p. fst p \<noteq> name) (tags n)"
    by (simp add: AList.delete_eq)
  have "name \<notin> fst ` set (filter (\<lambda>p. fst p \<noteq> name) (tags n))" by auto
  from update_absent [OF this] d assms show ?thesis
    by (simp add: retag_item_def addTag_def delTag_def)
qed

lemma set_lastocc_subset: "set (lastocc xs) \<subseteq> set xs"
  by (induction xs) auto

lemma keys_lastocc: "fst ` set (lastocc xs) = fst ` set xs"
  by (induction xs) auto

lemma distinct_lastocc: "distinct (map fst (lastocc xs))"
proof (induction xs)
  case Nil
  show ?case by simp
next
  case (Cons x xs)
  with keys_lastocc [of xs] show ?case by auto
qed

lemma lastocc_distinct_id: "distinct (map fst xs) \<Longrightarrow> lastocc xs = xs"
  by (induction xs) auto

lemma sorted_wrt_lastocc: "sorted_wrt P xs \<Longrightarrow> sorted_wrt P (lastocc xs)"
proof (induction xs)
  case Nil
  show ?case by simp
next
  case (Cons x xs)
  with set_lastocc_subset [of xs] show ?case by auto
qed

lemma foldl_retag_item_same:
  assumes r: "\<And>k. r k = (if k \<in> D then Some k else None)"
  shows "tags (foldl (retag_item r) m items) =
           filter (\<lambda>p. fst p \<notin> D \<inter> fst ` set items) (tags m) @ lastocc (filter (\<lambda>p. fst p \<in> D) items)"
proof (induction items arbitrary: m)
  case Nil
  show ?case by simp
next
  case (Cons x xs)
  obtain name v where x: "x = (name, v)" by (cases x)
  show ?case
  proof (cases "name \<in> D")
    case False
    with r have "r name = None" by simp
    then have e: "retag_item r m x = m" by (simp add: retag_item_def x)
    have "filter (\<lambda>p. fst p \<notin> D \<inter> fst ` set (x # xs)) (tags m)
        = filter (\<lambda>p. fst p \<notin> D \<inter> fst ` set xs) (tags m)"
      using False x by (intro filter_cong) auto
    with Cons [of m] e False x show ?thesis by simp
  next
    case True
    with r have "r name = Some name" by simp
    from retag_item_same_tags [of r name m v] this
    have e: "tags (retag_item r m x) = filter (\<lambda>p. fst p \<noteq> name) (tags m) @ [(name, v)]"
      by (simp add: x)
    have f: "filter (\<lambda>p. fst p \<notin> D \<inter> fst ` set xs) (filter (\<lambda>p. fst p \<noteq> name) (tags m))
        = filter (\<lambda>p. fst p \<notin> D \<inter> fst ` set (x # xs)) (tags m)"
      unfolding filter_filter using True x by (intro filter_cong) auto
    have k: "name \<in> fst ` set (filter (\<lambda>p. fst p \<in> D) xs) \<longleftrightarrow> name \<in> fst ` set xs"
      using True by force
    have "tags (foldl (retag_item r) m (x # xs)) =
        filter (\<lambda>p. fst p \<notin> D \<inter> fst ` set xs) (filter (\<lambda>p. fst p \<noteq> name) (tags m) @ [(name, v)])
        @ lastocc (filter (\<lambda>p. fst p \<in> D) xs)"
      using Cons [of "retag_item r m x"] e by simp
    also have "\<dots> = filter (\<lambda>p. fst p \<notin> D \<inter> fst ` set (x # xs)) (tags m)
        @ (if name \<in> fst ` set xs then [] else [(name, v)]) @ lastocc (filter (\<lambda>p. fst p \<in> D) xs)"
      using f True by simp
    also have "\<dots> = filter (\<lambda>p. fst p \<notin> D \<inter> fst ` set (x # xs)) (tags m)
        @ lastocc (filter (\<lambda>p. fst p \<in> D) (x # xs))"
      using True x k by simp
    finally show ?thesis .
  qed
qed

lemma retag_node_tags_only: "retag_node r n = n\<lparr>tags := tags (retag_node r n)\<rparr>"
proof -
  have "foldl (retag_item r) m items = m\<lparr>tags := tags (foldl (retag_item r) m items)\<rparr>" for m items
  proof (induction items arbitrary: m)
    case Nil
    show ?case by simp
  next
    case (Cons x xs)
    obtain name v where x: "x = (name, v)" by (cases x)
    have "retag_item r m x = m\<lparr>tags := tags (retag_item r m x)\<rparr>"
      by (simp add: x retag_item_def addTag_def delTag_def split: option.splits)
    with Cons [of "retag_item r m x"] show ?case
      by (metis foldl_Cons node.surjective node.update_convs(4) node.select_convs(1-5))
  qed
  then show ?thesis by (simp add: retag_node_def)
qed

lemma insort_key_last:
  "\<forall>y \<in> set ys. f y < f x \<Longrightarrow> insort_key f x ys = ys @ [x]"
  by (induction ys) auto

lemma sort_key_rev_distinct:
  "distinct (map f xs) \<Longrightarrow> sorted (map f (rev xs)) \<Longrightarrow> sort_key f xs = rev xs"
proof (induction xs)
  case Nil
  show ?case by simp
next
  case (Cons x xs)
  from Cons.prems(2) have s: "sorted (map f (rev xs))" and le: "\<forall>y \<in> set xs. f y \<le> f x"
    by (auto simp: sorted_append)
  from Cons.prems(1) have d: "distinct (map f xs)" and ne: "\<forall>y \<in> set xs. f y \<noteq> f x"
    by (auto simp: image_iff)
  from le ne have "\<forall>y \<in> set (rev xs). f y < f x" by (auto simp: less_le)
  from insort_key_last [OF this] Cons.IH [OF d s] show ?case by simp
qed

text \<open>
  When every key of \<^verbatim>\<open>retag\<close> maps to itself, the second loop's body moves the
  applications under those keys to the end of the node's tags, in reverse order of
  name; doing it again changes nothing.
\<close>

lemma retag_node_same_idem:
  assumes r: "\<And>k. r k = (if k \<in> D then Some k else None)"
  shows "retag_node r (retag_node r n) = retag_node r n"
proof -
  define A where "A = filter (\<lambda>p. fst p \<notin> D) (tags n)"
  define B where "B = lastocc (filter (\<lambda>p. fst p \<in> D) (rev (sort_key fst (tags n))))"
  define n' where "n' = retag_node r n"
  have "filter (\<lambda>p. fst p \<notin> D \<inter> fst ` set (rev (sort_key fst (tags m)))) (tags m)
      = filter (\<lambda>p. fst p \<notin> D) (tags m)" for m :: node
    by (intro filter_cong) auto
  with foldl_retag_item_same [of r D, OF r]
  have t: "tags (retag_node r m) = filter (\<lambda>p. fst p \<notin> D) (tags m)
      @ lastocc (filter (\<lambda>p. fst p \<in> D) (rev (sort_key fst (tags m))))" for m
    by (simp add: retag_node_def)
  then have t1: "tags n' = A @ B" by (simp add: n'_def A_def B_def)
  have BD: "\<forall>p \<in> set B. fst p \<in> D"
    using set_lastocc_subset [of "filter (\<lambda>p. fst p \<in> D) (rev (sort_key fst (tags n)))"]
    by (auto simp: B_def)
  have dB: "distinct (map fst B)" unfolding B_def by (rule distinct_lastocc)
  have "sorted_wrt (\<lambda>x y. fst x \<le> fst y) (sort_key fst (tags n))"
    using sorted_sort_key [of fst "tags n"] by (simp add: sorted_wrt_map)
  then have "sorted_wrt (\<lambda>x y. fst y \<le> fst x) (rev (sort_key fst (tags n)))"
    by (simp add: sorted_wrt_rev)
  then have "sorted_wrt (\<lambda>x y. fst y \<le> fst x) B"
    unfolding B_def by (intro sorted_wrt_lastocc sorted_wrt_filter)
  then have "sorted_wrt (\<lambda>x y. fst x \<le> fst y) (rev B)" by (simp add: sorted_wrt_rev)
  then have sB: "sorted (map fst (rev B))" by (simp add: sorted_wrt_map)
  have fA: "filter (\<lambda>p. fst p \<notin> D) A = A" "filter (\<lambda>p. fst p \<in> D) A = []"
    by (auto simp: A_def filter_empty_conv)
  have fB: "filter (\<lambda>p. fst p \<notin> D) B = []" "filter (\<lambda>p. fst p \<in> D) B = B"
    using BD by (auto simp: filter_empty_conv filter_id_conv)
  have "filter (\<lambda>p. fst p \<in> D) (rev (sort_key fst (A @ B)))
      = rev (sort_key fst (filter (\<lambda>p. fst p \<in> D) (A @ B)))"
    by (simp only: rev_filter [symmetric] filter_sort)
  also have "\<dots> = rev (sort_key fst B)" by (simp add: fA fB)
  also have "\<dots> = B" by (simp add: sort_key_rev_distinct [OF dB sB])
  finally have "tags (retag_node r n') = A @ B"
    using t [of n'] t1 fA fB by (simp add: lastocc_distinct_id [OF dB])
  with t1 have "tags (retag_node r n') = tags n'" by simp
  with retag_node_tags_only [of r n'] have "retag_node r n' = n'" by simp
  then show ?thesis by (simp add: n'_def)
qed

text \<open>
  For tags neither of which lies in the other's tree, the command leaves every node
  as the second loop's body leaves it, and a tag application whose name is a key of
  \<^verbatim>\<open>retag\<close> is found under the renamed name with exactly the value it had; every
  tag-definition the first loop went through is settled.
\<close>

lemma movetag_keeps_values:
  assumes "\<not> in_tree old new" and "\<not> in_tree new old"
  shows "nodes (movetag st old new) = map (retag_node (snd (movetag_defs st old new))) (nodes st)"
    and "\<And>n name v nt. distinct (map fst (tags n)) \<Longrightarrow> (name, v) \<in> set (tags n) \<Longrightarrow>
           snd (movetag_defs st old new) name = Some nt \<Longrightarrow>
           map_of (tags (retag_node (snd (movetag_defs st old new)) n)) nt = Some v"
    and "\<forall>t \<in> set (getNodesBy_pref (fst (addNode (fst (addNode st old)) new)) old).
           settled old new (movetag st old new) t"
proof -
  define L where "L = getNodesBy_pref (fst (addNode (fst (addNode st old)) new)) old"
  define r where "r = snd (movetag_defs st old new)"
  define st3 where "st3 = fst (movetag_defs st old new)"
  from unrelated_tree_defs [OF assms, of st]
  have A: "\<forall>t \<in> tree_defs st old new. \<not> in_tree old (renamed old new t)" .
  then have A': "(\<forall>t \<in> tree_defs st old new. \<not> in_tree old (renamed old new t)) \<or> old = new"
    by simp
  note run = movetag_run [OF A', folded L_def r_def st3_def]
  note vals = movetag_run_vals [OF A, folded r_def]
  have m: "movetag st old new = fst (foldl (retag_step r) (st3, 0) (getNodesBy_tag st3 old))"
    unfolding movetag_unfold st3_def r_def by simp
  have idem: "\<forall>n \<in> set (nodes st3). retag_node r (retag_node r n) = retag_node r n"
    using retag_node_vals_idem [OF vals] by simp
  have "map (\<lambda>n. if buid n \<in> set (getNodesBy_tag st3 old) then retag_node r n else n) (nodes st3)
        = map (retag_node r) (nodes st3)"
  proof (rule map_cong [OF refl])
    fix n assume n: "n \<in> set (nodes st3)"
    show "(if buid n \<in> set (getNodesBy_tag st3 old) then retag_node r n else n) = retag_node r n"
    proof (cases "buid n \<in> set (getNodesBy_tag st3 old)")
      case True
      then show ?thesis by simp
    next
      case False
      with n have "\<not> carries old n" by (auto simp: getNodesBy_tag_def)
      from not_carries_clean [OF run(7) this] have "retag_node r n = n" by (rule retag_node_clean_id)
      with False show ?thesis by simp
    qed
  qed
  with foldl_retag_step_nodes [OF idem, of 0 "getNodesBy_tag st3 old"] run(8)
  show "nodes (movetag st old new) = map (retag_node r) (nodes st)"
    unfolding m by simp
  have inj: "\<forall>k k'. r k = Some nt \<and> r k' = Some nt \<longrightarrow> k = k'" for nt
  proof (intro allI impI)
    fix k k' assume a: "r k = Some nt \<and> r k' = Some nt"
    with run(7) have t: "in_tree old k" "in_tree old k'" by auto
    from a have "nt = renamed old new k" "nt = renamed old new k'"
      by (auto simp: run(1) split: if_splits)
    then have "renamed old new k = renamed old new k'" by simp
    from renamed_inj [OF t this] show "k = k'" .
  qed
  show "\<And>n name v nt. distinct (map fst (tags n)) \<Longrightarrow> (name, v) \<in> set (tags n) \<Longrightarrow>
           r name = Some nt \<Longrightarrow> map_of (tags (retag_node r n)) nt = Some v"
    using retag_node_value [OF _ _ _ vals inj] by blast
  have "settled old new (movetag st old new) t = settled old new st3 t" for t
    by (rule settled_cong) (simp_all add: m)
  with run(2) show "\<forall>t \<in> set L. settled old new (movetag st old new) t" by simp
qed

section \<open>What the first loop leaves\<close>

lemma syntag_get_set:
  "syntag_get (syntag_set st name f) k prp =
     (if k = name then (case map_of (tagdefs st) name of None \<Rightarrow> None | Some td \<Rightarrow> prp (f td))
      else syntag_get st k prp)"
  by (simp add: syntag_get_def syntag_set_map split: option.splits)

lemma syntag_get_addNode:
  "syntag_get (fst (addNode st n)) k doc = syntag_get st k doc"
  "syntag_get (fst (addNode st n)) k title = syntag_get st k title"
  "syntag_get (fst (addNode st n)) k isnow = syntag_get st k isnow"
  by (simp_all add: syntag_get_def addNode_map split: option.splits)

lemma syntag_get_cong:
  "map_of (tagdefs st') k = map_of (tagdefs st) k \<Longrightarrow> syntag_get st' k prp = syntag_get st k prp"
  by (simp add: syntag_get_def)

lemma copy_prop_get:
  assumes "\<And>v td. prp' (put v td) = prp' td"
  shows "syntag_get (copy_prop st src dst prp put) k prp' = syntag_get st k prp'"
proof (cases "syntag_get st src prp")
  case None
  then show ?thesis by (simp add: copy_prop_def)
next
  case (Some v)
  have "syntag_get (syntag_set st dst (put v)) k prp' = syntag_get st k prp'"
    by (cases "map_of (tagdefs st) dst") (simp_all add: syntag_get_def syntag_set_map assms)
  with Some show ?thesis by (simp add: copy_prop_def)
qed

lemma syntag_set_isnow_get:
  "syntag_get (syntag_set st name (\<lambda>td. td\<lparr>isnow := v\<rparr>)) k doc = syntag_get st k doc"
  "syntag_get (syntag_set st name (\<lambda>td. td\<lparr>isnow := v\<rparr>)) k title = syntag_get st k title"
  by (cases "map_of (tagdefs st) name"; simp add: syntag_get_def syntag_set_map)+

lemma copy_prop_defined:
  "map_of (tagdefs (copy_prop st src dst prp put)) k \<noteq> None \<longleftrightarrow> map_of (tagdefs st) k \<noteq> None"
  by (simp only: defined_iff_key copy_prop_keys)

lemma isnow_step_isnow_other:
  assumes "k \<noteq> t"
  shows "syntag_get (fst (isnow_step old new (length old) (st, r) t)) k isnow = syntag_get st k isnow"
proof (cases "t = old")
  case True
  with assms show ?thesis by (simp add: isnow_step_def syntag_get_set)
next
  case False
  with assms show ?thesis
    by (simp add: isnow_step_def Let_def syntag_get_set copy_prop_get syntag_get_addNode)
qed

lemma isnow_step_isnow_self:
  assumes "map_of (tagdefs st) t \<noteq> None"
  shows "syntag_get (fst (isnow_step old new (length old) (st, r) t)) t isnow = Some (renamed old new t)"
proof (cases "t = old")
  case True
  with assms show ?thesis by (auto simp: isnow_step_def syntag_get_set)
next
  case False
  let ?n = "new @ drop (length old) t"
  let ?s1 = "fst (addNode st ?n)"
  let ?s2 = "copy_prop ?s1 t ?n doc (\<lambda>olddoc td. td\<lparr>doc := Some olddoc\<rparr>)"
  let ?s3 = "copy_prop ?s2 t ?n title (\<lambda>oldtitle td. td\<lparr>title := Some oldtitle\<rparr>)"
  from assms have "t \<in> set (map fst (tagdefs st))" by (simp only: defined_iff_key)
  with addNode_keys_mono [of st ?n] have "t \<in> set (map fst (tagdefs ?s3))" by auto
  then have "map_of (tagdefs ?s3) t \<noteq> None" by (simp only: defined_iff_key)
  with False show ?thesis
    by (auto simp: isnow_step_def Let_def syntag_get_set renamed_def)
qed

lemma foldl_isnow_isnow_other:
  "t \<notin> set ts \<Longrightarrow>
   syntag_get (fst (foldl (isnow_step old new (length old)) (st, r) ts)) t isnow = syntag_get st t isnow"
proof (induction ts arbitrary: st r)
  case Nil
  show ?case by simp
next
  case (Cons t0 ts)
  obtain st' r' where s: "isnow_step old new (length old) (st, r) t0 = (st', r')"
    by (cases "isnow_step old new (length old) (st, r) t0")
  from Cons.prems have "t \<noteq> t0" "t \<notin> set ts" by auto
  from isnow_step_isnow_other [OF this(1), of old new st r] s Cons.IH [OF this(2), of st' r']
  show ?case by simp
qed

lemma foldl_isnow_isnow:
  "t \<in> set ts \<Longrightarrow> map_of (tagdefs st) t \<noteq> None \<Longrightarrow>
   syntag_get (fst (foldl (isnow_step old new (length old)) (st, r) ts)) t isnow
     = Some (renamed old new t)"
proof (induction ts arbitrary: st r)
  case Nil
  then show ?case by simp
next
  case (Cons t0 ts)
  obtain st' r' where s: "isnow_step old new (length old) (st, r) t0 = (st', r')"
    by (cases "isnow_step old new (length old) (st, r) t0")
  from Cons.prems(2) have "t \<in> set (map fst (tagdefs st))" by (simp only: defined_iff_key)
  with isnow_step_keys_mono [of st old new r t0] s have "t \<in> set (map fst (tagdefs st'))" by auto
  then have d': "map_of (tagdefs st') t \<noteq> None" by (simp only: defined_iff_key)
  show ?case
  proof (cases "t \<in> set ts")
    case True
    from Cons.IH [OF True d', of r'] s show ?thesis by simp
  next
    case False
    with Cons.prems(1) have e: "t = t0" by simp
    from isnow_step_isnow_self [OF Cons.prems(2), of old new r] s e
    have "syntag_get st' t isnow = Some (renamed old new t)" by simp
    with foldl_isnow_isnow_other [OF False, of old new st' r'] s show ?thesis by simp
  qed
qed

lemma isnow_step_src:
  assumes "k \<noteq> renamed old new t \<or> t = old"
  shows "syntag_get (fst (isnow_step old new (length old) (st, r) t)) k doc = syntag_get st k doc"
    and "syntag_get (fst (isnow_step old new (length old) (st, r) t)) k title = syntag_get st k title"
proof -
  let ?n = "new @ drop (length old) t"
  have c: "syntag_get (copy_prop s t ?n prp put) k prp' = syntag_get s k prp'"
    if "t \<noteq> old" for s prp put prp'
  proof -
    from that assms have "k \<noteq> ?n" by (simp add: renamed_def)
    from copy_prop_other [OF this] show ?thesis by (rule syntag_get_cong)
  qed
  show "syntag_get (fst (isnow_step old new (length old) (st, r) t)) k doc = syntag_get st k doc"
    by (cases "t = old") (simp_all add: isnow_step_def Let_def syntag_set_isnow_get c syntag_get_addNode)
  show "syntag_get (fst (isnow_step old new (length old) (st, r) t)) k title = syntag_get st k title"
    by (cases "t = old") (simp_all add: isnow_step_def Let_def syntag_set_isnow_get c syntag_get_addNode)
qed

lemma isnow_step_dst:
  assumes "t \<noteq> old" and "renamed old new t \<noteq> t"
  shows "map_of (tagdefs (fst (isnow_step old new (length old) (st, r) t))) (renamed old new t)
           = Some (renamed_tagdef old new st t)"
proof -
  let ?n = "new @ drop (length old) t"
  from assms have ne: "t \<noteq> ?n" by (auto simp: renamed_def)
  let ?s1 = "fst (addNode st ?n)"
  let ?s2 = "copy_prop ?s1 t ?n doc (\<lambda>olddoc td. td\<lparr>doc := Some olddoc\<rparr>)"
  let ?s3 = "copy_prop ?s2 t ?n title (\<lambda>oldtitle td. td\<lparr>title := Some oldtitle\<rparr>)"
  let ?s4 = "syntag_set ?s3 t (\<lambda>td. td\<lparr>isnow := Some ?n\<rparr>)"
  define b where "b = (case map_of (tagdefs st) ?n of
      None \<Rightarrow> \<lparr>doc = None, title = None, isnow = None\<rparr> | Some b \<Rightarrow> b)"
  have b: "map_of (tagdefs ?s1) ?n = Some b"
    by (cases "map_of (tagdefs st) ?n") (auto simp: addNode_map b_def)
  have t1: "map_of (tagdefs ?s1) t = map_of (tagdefs st) t"
    using ne by (simp add: addNode_map)
  have t2: "map_of (tagdefs ?s2) t = map_of (tagdefs st) t"
    using ne t1 by (simp add: copy_prop_other)
  have n2: "map_of (tagdefs ?s2) ?n =
      Some (case map_of (tagdefs st) t of None \<Rightarrow> b
            | Some td \<Rightarrow> (case doc td of None \<Rightarrow> b | Some v \<Rightarrow> b\<lparr>doc := Some v\<rparr>))"
    using copy_prop_dst [OF b ne, of doc "\<lambda>olddoc td. td\<lparr>doc := Some olddoc\<rparr>"] t1 by simp
  from copy_prop_dst [OF n2 ne, of title "\<lambda>oldtitle td. td\<lparr>title := Some oldtitle\<rparr>"] t2
  have n3: "map_of (tagdefs ?s3) ?n =
      Some (case map_of (tagdefs st) t of
              None \<Rightarrow> b
            | Some td \<Rightarrow>
                (case title td of
                   None \<Rightarrow> (case doc td of None \<Rightarrow> b | Some v \<Rightarrow> b\<lparr>doc := Some v\<rparr>)
                 | Some w \<Rightarrow> (case doc td of None \<Rightarrow> b | Some v \<Rightarrow> b\<lparr>doc := Some v\<rparr>)\<lparr>title := Some w\<rparr>))"
    by (simp split: option.splits)
  have e: "fst (isnow_step old new (length old) (st, r) t) = ?s4"
    using assms(1) by (simp add: isnow_step_def Let_def)
  have "map_of (tagdefs ?s4) ?n = map_of (tagdefs ?s3) ?n"
    using ne by (simp add: syntag_set_map split: option.splits)
  with n3 show ?thesis
    unfolding e
    by (auto simp: renamed_tagdef_def renamed_def syntag_get_def b_def split: option.splits)
qed

lemma renamed_tagdef_again:
  assumes "syntag_get st t doc = syntag_get st0 t doc"
    and "syntag_get st t title = syntag_get st0 t title"
    and "map_of (tagdefs st) (renamed old new t) = Some (renamed_tagdef old new st0 t)
         \<or> map_of (tagdefs st) (renamed old new t) = map_of (tagdefs st0) (renamed old new t)"
  shows "renamed_tagdef old new st t = renamed_tagdef old new st0 t"
  using assms(3)
proof
  assume "map_of (tagdefs st) (renamed old new t) = map_of (tagdefs st0) (renamed old new t)"
  then have "syntag_get st (renamed old new t) prp = syntag_get st0 (renamed old new t) prp" for prp
    by (rule syntag_get_cong)
  with assms(1,2) show ?thesis by (simp add: renamed_tagdef_def split: option.splits)
next
  assume a: "map_of (tagdefs st) (renamed old new t) = Some (renamed_tagdef old new st0 t)"
  then have "syntag_get st (renamed old new t) prp = prp (renamed_tagdef old new st0 t)" for prp
    by (simp add: syntag_get_def)
  with assms(1,2) show ?thesis
    by (simp add: renamed_tagdef_def split: option.splits)
qed

lemma isnow_step_defs_inv:
  assumes sep: "\<And>t t0. t \<in> T \<Longrightarrow> t0 \<in> T \<Longrightarrow> t \<noteq> t0 \<Longrightarrow>
             t \<noteq> renamed old new t0 \<and> renamed old new t \<noteq> renamed old new t0"
    and fresh: "\<And>t. t \<in> T \<Longrightarrow> t \<noteq> old \<Longrightarrow> renamed old new t \<noteq> t"
    and t0: "t0 \<in> T"
    and inv: "defs_inv old new T G st0 st"
  shows "defs_inv old new T (insert t0 G) st0 (fst (isnow_step old new (length old) (st, r) t0))"
proof -
  let ?st' = "fst (isnow_step old new (length old) (st, r) t0)"
  have src: "syntag_get ?st' t doc = syntag_get st0 t doc
      \<and> syntag_get ?st' t title = syntag_get st0 t title" if t: "t \<in> T" for t
  proof -
    have "t \<noteq> renamed old new t0 \<or> t0 = old"
    proof (cases "t = t0")
      case True
      show ?thesis
      proof (cases "t0 = old")
        case True
        then show ?thesis by simp
      next
        case False
        from fresh [OF t0 False] True show ?thesis by simp
      qed
    next
      case False
      from sep [OF t t0 False] show ?thesis by simp
    qed
    from isnow_step_src [OF this, of st r] inv t show ?thesis by (simp add: defs_inv_def)
  qed
  have dst: "map_of (tagdefs ?st') (renamed old new t) = Some (renamed_tagdef old new st0 t)
      \<or> (t \<notin> insert t0 G
          \<and> map_of (tagdefs ?st') (renamed old new t) = map_of (tagdefs st0) (renamed old new t))"
    if t: "t \<in> T" and o: "t \<noteq> old" for t
  proof (cases "t = t0")
    case True
    from inv t have i: "syntag_get st t doc = syntag_get st0 t doc"
      "syntag_get st t title = syntag_get st0 t title"
      "map_of (tagdefs st) (renamed old new t) = Some (renamed_tagdef old new st0 t)
         \<or> map_of (tagdefs st) (renamed old new t) = map_of (tagdefs st0) (renamed old new t)"
      using o by (auto simp: defs_inv_def)
    from isnow_step_dst [OF o fresh [OF t o], of st r] renamed_tagdef_again [OF i] True
    show ?thesis by simp
  next
    case False
    from sep [OF t t0 False] have 3: "renamed old new t \<noteq> renamed old new t0" by simp
    from sep [OF t0 t] False have 2: "renamed old new t \<noteq> t0" by auto
    from isnow_step_other [OF 2 3, of st r]
    have "map_of (tagdefs ?st') (renamed old new t) = map_of (tagdefs st) (renamed old new t)" .
    with inv t o False show ?thesis by (auto simp: defs_inv_def)
  qed
  from src dst show ?thesis by (simp add: defs_inv_def)
qed

lemma foldl_isnow_defs_inv:
  assumes sep: "\<And>t t0. t \<in> T \<Longrightarrow> t0 \<in> T \<Longrightarrow> t \<noteq> t0 \<Longrightarrow>
             t \<noteq> renamed old new t0 \<and> renamed old new t \<noteq> renamed old new t0"
    and fresh: "\<And>t. t \<in> T \<Longrightarrow> t \<noteq> old \<Longrightarrow> renamed old new t \<noteq> t"
    and "set ts \<subseteq> T"
    and "defs_inv old new T G st0 st"
  shows "defs_inv old new T (G \<union> set ts) st0 (fst (foldl (isnow_step old new (length old)) (st, r) ts))"
  using assms(3,4)
proof (induction ts arbitrary: st r G)
  case Nil
  then show ?case by simp
next
  case (Cons t0 ts)
  obtain st' r' where s: "isnow_step old new (length old) (st, r) t0 = (st', r')"
    by (cases "isnow_step old new (length old) (st, r) t0")
  from Cons.prems(1) have t0: "t0 \<in> T" and ts: "set ts \<subseteq> T" by simp_all
  from isnow_step_defs_inv [of T old new t0 G st0 st r, OF sep fresh t0 Cons.prems(2)] s
  have "defs_inv old new T (insert t0 G) st0 st'" by simp
  from Cons.IH [OF ts this, of r'] s show ?case by simp
qed

section \<open>The tag rename on the example stores\<close>

lemmas movetag_eval =
  movetag_def MoveTagCmd_runStormCmd_def movetag_defs_def addNode_def
  getNodesBy_pref_def in_tree_def dotted_prefix_def isnow_step_def copy_prop_def syntag_set_def
  syntag_get_def getNodesBy_tag_def carries_def nodeX_def retag_step_def retag_node_def
  retag_item_def addTag_def delTag_def Let_def

lemma ex_movetag_foo:
  "movetag st_foo ''foo.bar'' ''zar.qux'' =
     \<lparr>tagdefs = [(''foo.bar'', \<lparr>doc = Some ''the bar'', title = None, isnow = Some ''zar.qux''\<rparr>),
                 (''foo.bar.baz'', \<lparr>doc = Some ''about baz'', title = Some ''Baz'', isnow = Some ''zar.qux.baz''\<rparr>),
                 (''foo.barbaz'', \<lparr>doc = None, title = None, isnow = None\<rparr>),
                 (''zar.qux'', \<lparr>doc = None, title = None, isnow = None\<rparr>),
                 (''zar.qux.baz'', \<lparr>doc = Some ''about baz'', title = Some ''Baz'', isnow = None\<rparr>)],
      nodes = [nodeX [(''foo.barbaz'', Some (1, 2)), (''zar.qux.baz'', Some (100, 200)),
                      (''zar.qux'', None)]]\<rparr>"
  by (simp add: movetag_eval st_foo_def)

lemma ex_movetag_ab:
  "movetag st_ab ''a.b'' ''a'' =
     \<lparr>tagdefs = [(''a.b'', \<lparr>doc = None, title = None, isnow = Some ''a''\<rparr>),
                 (''a.b.b'', \<lparr>doc = None, title = None, isnow = Some ''a.b''\<rparr>),
                 (''a'', \<lparr>doc = None, title = None, isnow = None\<rparr>)],
      nodes = [nodeX [(''a'', None)]]\<rparr>"
  by (simp add: movetag_eval st_ab_def)

lemma ex_movetag_f:
  "movetag st_f ''foo'' ''foo.bar'' =
     \<lparr>tagdefs = [(''foo'', \<lparr>doc = None, title = None, isnow = Some ''foo.bar''\<rparr>),
                 (''foo.bar'', \<lparr>doc = None, title = None, isnow = Some ''foo.bar.bar''\<rparr>),
                 (''foo.bar.bar'', \<lparr>doc = None, title = None, isnow = None\<rparr>)],
      nodes = [nodeX [(''foo.bar'', None)]]\<rparr>"
  by (simp add: movetag_eval st_f_def)

lemma ex_movetag_f2:
  "movetag (movetag st_f ''foo'' ''foo.bar'') ''foo'' ''foo.bar'' =
     \<lparr>tagdefs = [(''foo'', \<lparr>doc = None, title = None, isnow = Some ''foo.bar''\<rparr>),
                 (''foo.bar'', \<lparr>doc = None, title = None, isnow = Some ''foo.bar.bar''\<rparr>),
                 (''foo.bar.bar'', \<lparr>doc = None, title = None, isnow = Some ''foo.bar.bar.bar''\<rparr>),
                 (''foo.bar.bar.bar'', \<lparr>doc = None, title = None, isnow = None\<rparr>)],
      nodes = [nodeX [(''foo.bar.bar'', None)]]\<rparr>"
  unfolding ex_movetag_f by (simp add: movetag_eval)

lemma ex_movetag_abb:
  "movetag st_abb ''a.b'' ''a'' =
     \<lparr>tagdefs = [(''a.b'', \<lparr>doc = None, title = None, isnow = Some ''a''\<rparr>),
                 (''a.b.b'', \<lparr>doc = None, title = None, isnow = Some ''a.b''\<rparr>),
                 (''a'', \<lparr>doc = None, title = None, isnow = None\<rparr>)],
      nodes = [nodeX [(''a.b'', Some (100, 200))]]\<rparr>"
  by (simp add: movetag_eval st_abb_def)

lemma ex_movetag_abb2:
  "movetag (movetag st_abb ''a.b'' ''a'') ''a.b'' ''a'' =
     \<lparr>tagdefs = [(''a.b'', \<lparr>doc = None, title = None, isnow = Some ''a''\<rparr>),
                 (''a.b.b'', \<lparr>doc = None, title = None, isnow = Some ''a.b''\<rparr>),
                 (''a'', \<lparr>doc = None, title = None, isnow = None\<rparr>)],
      nodes = [nodeX [(''a'', Some (100, 200))]]\<rparr>"
  unfolding ex_movetag_abb by (simp add: movetag_eval)

lemma ex_run_foo:
  "MoveTagCmd_runStormCmd st_foo ''foo.bar'' ''zar.qux'' [1 :: nat, 2] =
     (movetag st_foo ''foo.bar'' ''zar.qux'', [''moved tags on 1 nodes.''], [1, 2])"
  by (simp add: movetag_eval st_foo_def str_of_nat.simps digit_char_def)

lemma foldl_isnow_other:
  assumes "k \<notin> set ts" and "k \<notin> renamed old new ` set ts"
  shows "map_of (tagdefs (fst (foldl (isnow_step old new (length old)) (st, r) ts))) k
         = map_of (tagdefs st) k"
  using assms
proof (induction ts arbitrary: st r)
  case Nil
  show ?case by simp
next
  case (Cons t ts)
  obtain st' r' where s: "isnow_step old new (length old) (st, r) t = (st', r')"
    by (cases "isnow_step old new (length old) (st, r) t")
  from Cons.prems have "k \<noteq> t" "k \<noteq> renamed old new t" by auto
  from isnow_step_other [OF this, of st r] s
  have "map_of (tagdefs st') k = map_of (tagdefs st) k" by simp
  with Cons.IH [of st' r'] Cons.prems s show ?case by simp
qed

lemma foldl_isnow_renamed_key:
  "t \<in> set ts \<Longrightarrow>
     renamed old new t \<in> set (map fst (tagdefs (fst (foldl (isnow_step old new (length old)) (st, r) ts))))
     \<or> t = old"
proof (induction ts arbitrary: st r)
  case Nil
  then show ?case by simp
next
  case (Cons t0 ts)
  obtain st' r' where s: "isnow_step old new (length old) (st, r) t0 = (st', r')"
    by (cases "isnow_step old new (length old) (st, r) t0")
  show ?case
  proof (cases "t \<in> set ts")
    case True
    from Cons.IH [OF True, of st' r'] s show ?thesis by simp
  next
    case False
    with Cons.prems have e: "t = t0" by simp
    show ?thesis
    proof (cases "t = old")
      case True
      then show ?thesis by simp
    next
      case False
      have "renamed old new t \<in> set (map fst (tagdefs st'))"
      proof (cases "map_of (tagdefs st) (renamed old new t)")
        case None
        with isnow_step_keys [of old new st r t0] s e False show ?thesis by simp
      next
        case (Some a)
        then have "renamed old new t \<in> set (map fst (tagdefs st))"
          by (auto dest: map_of_SomeD intro: rev_image_eqI)
        with isnow_step_keys [of old new st r t0] s show ?thesis by simp
      qed
      with foldl_isnow_keys_mono [of st' old new r' ts] s show ?thesis by auto
    qed
  qed
qed

lemma lifted_sep:
  assumes "(\<forall>t \<in> T. \<not> in_tree old (renamed old new t)) \<or> old = new"
    and "\<forall>t \<in> T. in_tree old t"
    and "t \<in> T" and "t0 \<in> T" and "t \<noteq> t0"
  shows "t \<noteq> renamed old new t0 \<and> renamed old new t \<noteq> renamed old new t0"
proof -
  from assms(2,3,4) have i: "in_tree old t" "in_tree old t0" by auto
  from renamed_inj [OF i] assms(5) have 2: "renamed old new t \<noteq> renamed old new t0" by auto
  from assms(1) show ?thesis
  proof
    assume "\<forall>t \<in> T. \<not> in_tree old (renamed old new t)"
    with assms(4) have "\<not> in_tree old (renamed old new t0)" by simp
    with i(1) 2 show ?thesis by auto
  next
    assume "old = new"
    with renamed_same [OF i(2)] assms(5) 2 show ?thesis by simp
  qed
qed

text \<open>
  The loop body makes no test of its own for the dot: handed the name
  \<^verbatim>\<open>foo.barbaz\<close> for \<^verbatim>\<open>oldtag\<close> \<^verbatim>\<open>foo.bar\<close>, it would rename it to \<^verbatim>\<open>zar.quxbaz\<close>. Which names
  the loop is handed is decided by the lift alone.
\<close>

lemma isnow_step_string_prefix:
  "snd (isnow_step ''foo.bar'' ''zar.qux'' (length ''foo.bar'') (st_foo, Map.empty) ''foo.barbaz'')
     ''foo.barbaz'' = Some ''zar.quxbaz''"
  by (simp add: isnow_step_def Let_def)

text \<open>
  C6. Let \<open>K\<close> be the names that are \<^verbatim>\<open>oldtag\<close> or have it as a dotted-path prefix,
  among the names of the tag-definitions of the store together with \<^verbatim>\<open>oldtag\<close> and
  \<^verbatim>\<open>newtag\<close>, whose definitions the command creates first. When the first loop has
  ended:
  \<^item> the keys of \<^verbatim>\<open>retag\<close> are exactly \<open>K\<close>, so a name that merely starts with the
    characters of \<^verbatim>\<open>oldtag\<close> is no key; each key maps to its renamed name, \<^verbatim>\<open>oldtag\<close>
    to \<^verbatim>\<open>newtag\<close> and \<^verbatim>\<open>oldtag\<close> followed by a dot and a suffix to \<^verbatim>\<open>newtag\<close> followed
    by the same dot and suffix;
  \<^item> \<^verbatim>\<open>isnow\<close> of every definition in \<open>K\<close>, the exact match included, is its renamed
    name, and the renamed definition exists;
  \<^item> a definition that is neither in \<open>K\<close> nor the renamed name of one in \<open>K\<close> is as it
    was in the store;
  \<^item> when no name of \<open>K\<close> is renamed to a name in the tree of \<^verbatim>\<open>oldtag\<close>, every
    definition in \<open>K\<close> has kept its \<^verbatim>\<open>doc\<close> and \<^verbatim>\<open>title\<close>, and the renamed definition
    of every prefix match holds the \<^verbatim>\<open>doc\<close> and the \<^verbatim>\<open>title\<close> of the match where the
    match has them, and otherwise what it held before, nothing if it did not exist;
  \<^item> one pass of the loop body for a name \<open>t\<close>, from any store \<open>s\<close>, leaves \<open>t\<close>
    settled, enters \<open>t\<close> in \<^verbatim>\<open>retag\<close> unless it is the exact match, and leaves the
    renamed definition of a prefix match as \<open>renamed_tagdef\<close> describes.
\<close>

theorem C6_first_loop_rewrites_tree:
  fixes st :: store and old new :: string
  defines "K \<equiv> {t. in_tree old t \<and> (t \<in> set (map fst (tagdefs st)) \<or> t = old \<or> t = new)}"
  defines "st3 \<equiv> fst (movetag_defs st old new)"
  defines "retag \<equiv> snd (movetag_defs st old new)"
  shows "dom retag = K
    \<and> (\<forall>t \<in> K. retag t = Some (renamed old new t))
    \<and> retag old = Some new
    \<and> (\<forall>suffix. old @ ''.'' @ suffix \<in> K \<longrightarrow>
           retag (old @ ''.'' @ suffix) = Some (new @ ''.'' @ suffix))
    \<and> (\<forall>t \<in> K. syntag_get st3 t isnow = Some (renamed old new t))
    \<and> (\<forall>t \<in> K. renamed old new t \<in> set (map fst (tagdefs st3)))
    \<and> (\<forall>k. k \<notin> K \<and> k \<notin> renamed old new ` K \<longrightarrow>
           map_of (tagdefs st3) k = map_of (tagdefs st) k)
    \<and> ((\<forall>t \<in> K. \<not> in_tree old (renamed old new t)) \<longrightarrow>
          (\<forall>t \<in> K. syntag_get st3 t doc = syntag_get st t doc
                   \<and> syntag_get st3 t title = syntag_get st t title
                   \<and> (t \<noteq> old \<longrightarrow>
                        map_of (tagdefs st3) (renamed old new t)
                          = Some (renamed_tagdef old new st t))))
    \<and> (\<forall>t s r. settled old new (fst (isnow_step old new (length old) (s, r) t)) t
           \<and> (t \<noteq> old \<longrightarrow>
                snd (isnow_step old new (length old) (s, r) t) = r(t \<mapsto> renamed old new t))
           \<and> (t \<noteq> old \<and> renamed old new t \<noteq> t \<longrightarrow>
                map_of (tagdefs (fst (isnow_step old new (length old) (s, r) t))) (renamed old new t)
                  = Some (renamed_tagdef old new s t)))"
proof -
  define st2 where "st2 = fst (addNode (fst (addNode st old)) new)"
  define L where "L = getNodesBy_pref st2 old"
  have d: "movetag_defs st old new = foldl (isnow_step old new (length old)) (st2, [old \<mapsto> new]) L"
    by (simp add: movetag_defs_unfold st2_def L_def)
  have r: "retag = (\<lambda>t. if t \<in> set L \<and> t \<noteq> old then Some (renamed old new t) else [old \<mapsto> new] t)"
    unfolding retag_def d by (rule foldl_isnow_retag)
  have sL: "set L = K"
    unfolding L_def st2_def set_lifted by (auto simp: K_def tree_defs_def)
  have Lt: "\<forall>t \<in> set L. in_tree old t" by (simp add: L_def getNodesBy_pref_def)
  have Lk: "set L \<subseteq> set (map fst (tagdefs st2))" by (auto simp: L_def getNodesBy_pref_def)
  have oL: "old \<in> set L" unfolding sL by (simp add: K_def in_tree_def)
  have n2: "new \<in> set (map fst (tagdefs st2))"
    unfolding st2_def by (rule addNode_defines)
  have g2: "syntag_get st2 k doc = syntag_get st k doc" "syntag_get st2 k title = syntag_get st k title"
    "syntag_get st2 k isnow = syntag_get st k isnow" for k
    by (simp_all add: st2_def syntag_get_addNode)
  have 1: "dom retag = K"
    using oL sL by (auto simp: r dom_def split: if_splits)
  have 2: "\<forall>t \<in> K. retag t = Some (renamed old new t)"
    using sL by (auto simp: r)
  have 3: "retag old = Some new" by (simp add: r)
  have 4: "\<forall>suffix. old @ ''.'' @ suffix \<in> K \<longrightarrow>
           retag (old @ ''.'' @ suffix) = Some (new @ ''.'' @ suffix)"
    using sL by (simp add: r)
  have 5: "\<forall>t \<in> K. syntag_get st3 t isnow = Some (renamed old new t)"
  proof
    fix t assume "t \<in> K"
    with sL have t: "t \<in> set L" by simp
    with Lk have "t \<in> set (map fst (tagdefs st2))" by auto
    then have "map_of (tagdefs st2) t \<noteq> None" by (simp only: defined_iff_key)
    from foldl_isnow_isnow [OF t this, of old new "[old \<mapsto> new]"]
    show "syntag_get st3 t isnow = Some (renamed old new t)" unfolding st3_def d .
  qed
  have 6: "\<forall>t \<in> K. renamed old new t \<in> set (map fst (tagdefs st3))"
  proof
    fix t assume "t \<in> K"
    with sL have t: "t \<in> set L" by simp
    from foldl_isnow_renamed_key [OF t, of old new st2 "[old \<mapsto> new]"]
    have "renamed old new t \<in> set (map fst (tagdefs st3)) \<or> t = old"
      unfolding st3_def d .
    moreover from n2 foldl_isnow_keys_mono [of st2 old new "[old \<mapsto> new]" L]
    have "new \<in> set (map fst (tagdefs st3))" unfolding st3_def d by blast
    ultimately show "renamed old new t \<in> set (map fst (tagdefs st3))"
      by (cases "t = old") simp_all
  qed
  have 7: "\<forall>k. k \<notin> K \<and> k \<notin> renamed old new ` K \<longrightarrow>
           map_of (tagdefs st3) k = map_of (tagdefs st) k"
  proof (intro allI impI)
    fix k assume k: "k \<notin> K \<and> k \<notin> renamed old new ` K"
    with sL have "k \<notin> set L" "k \<notin> renamed old new ` set L" by simp_all
    from foldl_isnow_other [OF this, of st2 "[old \<mapsto> new]"]
    have a: "map_of (tagdefs st3) k = map_of (tagdefs st2) k" unfolding st3_def d .
    from k oL sL have "k \<noteq> old" by auto
    moreover from k oL sL have "k \<noteq> new" by (metis image_eqI renamed_old)
    ultimately have "map_of (tagdefs st2) k = map_of (tagdefs st) k"
      by (simp add: st2_def addNode_map)
    with a show "map_of (tagdefs st3) k = map_of (tagdefs st) k" by simp
  qed
  have 8: "(\<forall>t \<in> K. \<not> in_tree old (renamed old new t)) \<longrightarrow>
          (\<forall>t \<in> K. syntag_get st3 t doc = syntag_get st t doc
                   \<and> syntag_get st3 t title = syntag_get st t title
                   \<and> (t \<noteq> old \<longrightarrow>
                        map_of (tagdefs st3) (renamed old new t)
                          = Some (renamed_tagdef old new st t)))"
  proof (intro impI ballI)
    fix t assume A: "\<forall>t \<in> K. \<not> in_tree old (renamed old new t)" and t: "t \<in> K"
    from A sL have A': "(\<forall>t \<in> set L. \<not> in_tree old (renamed old new t)) \<or> old = new" by simp
    have fresh: "renamed old new u \<noteq> u" if "u \<in> set L" for u
      using that A sL Lt by auto
    have "defs_inv old new (set L) {} st2 st2" by (simp add: defs_inv_def)
    from foldl_isnow_defs_inv [of "set L" old new L "{}" st2 st2 "[old \<mapsto> new]",
        OF lifted_sep [OF A' Lt] fresh _ this]
    have "defs_inv old new (set L) (set L) st2 st3" unfolding st3_def d by simp
    with t sL have "syntag_get st3 t doc = syntag_get st2 t doc"
      "syntag_get st3 t title = syntag_get st2 t title"
      "t \<noteq> old \<longrightarrow> map_of (tagdefs st3) (renamed old new t) = Some (renamed_tagdef old new st2 t)"
      by (auto simp: defs_inv_def)
    moreover have "renamed_tagdef old new st2 t = renamed_tagdef old new st t"
      by (simp add: renamed_tagdef_def g2 cong: option.case_cong)
    ultimately show "syntag_get st3 t doc = syntag_get st t doc
                   \<and> syntag_get st3 t title = syntag_get st t title
                   \<and> (t \<noteq> old \<longrightarrow>
                        map_of (tagdefs st3) (renamed old new t)
                          = Some (renamed_tagdef old new st t))"
      by (simp add: g2)
  qed
  have 9: "\<forall>t s r. settled old new (fst (isnow_step old new (length old) (s, r) t)) t
           \<and> (t \<noteq> old \<longrightarrow>
                snd (isnow_step old new (length old) (s, r) t) = r(t \<mapsto> renamed old new t))
           \<and> (t \<noteq> old \<and> renamed old new t \<noteq> t \<longrightarrow>
                map_of (tagdefs (fst (isnow_step old new (length old) (s, r) t))) (renamed old new t)
                  = Some (renamed_tagdef old new s t))"
    using isnow_step_settles [of old new] isnow_step_dst [of _ old new]
    by (simp add: isnow_step_retag)
  show ?thesis by (intro conjI 1 2 3 4 5 6 7 8 9)
qed

lemma ex_defs_foo:
  "movetag_defs st_foo ''foo.bar'' ''zar.qux'' =
     (\<lparr>tagdefs = [(''foo.bar'', \<lparr>doc = Some ''the bar'', title = None, isnow = Some ''zar.qux''\<rparr>),
                  (''foo.bar.baz'', \<lparr>doc = Some ''about baz'', title = Some ''Baz'', isnow = Some ''zar.qux.baz''\<rparr>),
                  (''foo.barbaz'', \<lparr>doc = None, title = None, isnow = None\<rparr>),
                  (''zar.qux'', \<lparr>doc = None, title = None, isnow = None\<rparr>),
                  (''zar.qux.baz'', \<lparr>doc = Some ''about baz'', title = Some ''Baz'', isnow = None\<rparr>)],
       nodes = nodes st_foo\<rparr>,
      [''foo.bar'' \<mapsto> ''zar.qux'', ''foo.bar.baz'' \<mapsto> ''zar.qux.baz''])"
  by (simp add: movetag_eval st_foo_def)

theorem C6_first_loop_witness:
  "snd (movetag_defs st_foo ''foo.bar'' ''zar.qux'') ''foo.bar'' = Some ''zar.qux''
   \<and> snd (movetag_defs st_foo ''foo.bar'' ''zar.qux'') ''foo.bar.baz'' = Some ''zar.qux.baz''
   \<and> snd (movetag_defs st_foo ''foo.bar'' ''zar.qux'') ''foo.barbaz'' = None
   \<and> syntag_get (fst (movetag_defs st_foo ''foo.bar'' ''zar.qux'')) ''foo.bar'' isnow = Some ''zar.qux''
   \<and> syntag_get (fst (movetag_defs st_foo ''foo.bar'' ''zar.qux'')) ''foo.bar.baz'' isnow
       = Some ''zar.qux.baz''
   \<and> map_of (tagdefs (fst (movetag_defs st_foo ''foo.bar'' ''zar.qux''))) ''zar.qux.baz''
       = Some \<lparr>doc = Some ''about baz'', title = Some ''Baz'', isnow = None\<rparr>
   \<and> map_of (tagdefs (fst (movetag_defs st_foo ''foo.bar'' ''zar.qux''))) ''foo.barbaz''
       = Some \<lparr>doc = None, title = None, isnow = None\<rparr>"
proof -
  define K where "K = {t. in_tree ''foo.bar'' t
      \<and> (t \<in> set (map fst (tagdefs st_foo)) \<or> t = ''foo.bar'' \<or> t = ''zar.qux'')}"
  note t = C6_first_loop_rewrites_tree [where st = st_foo and old = "''foo.bar''" and new = "''zar.qux''",
      folded K_def]
  have o: "''foo.bar'' \<in> K" by (simp add: K_def in_tree_def)
  have m: "''foo.bar'' @ ''.'' @ ''baz'' \<in> K"
    by (simp add: K_def st_foo_def in_tree_def dotted_prefix_def)
  then have m': "''foo.bar.baz'' \<in> K" by simp
  have x: "''foo.barbaz'' \<notin> K" by (simp add: K_def in_tree_def dotted_prefix_def)
  have x': "''foo.barbaz'' \<notin> renamed ''foo.bar'' ''zar.qux'' ` K" by (auto simp: renamed_def)
  have u1: "\<not> in_tree ''foo.bar'' ''zar.qux''" and u2: "\<not> in_tree ''zar.qux'' ''foo.bar''"
    by (simp_all add: in_tree_def dotted_prefix_def)
  have A: "\<forall>t \<in> K. \<not> in_tree ''foo.bar'' (renamed ''foo.bar'' ''zar.qux'' t)"
    using renamed_not_in_tree [OF u1 u2] by (simp add: K_def)
  note c1 = t [THEN conjunct1]
  note c3 = t [THEN conjunct2, THEN conjunct2, THEN conjunct1]
  note c4 = t [THEN conjunct2, THEN conjunct2, THEN conjunct2, THEN conjunct1]
  note c5 = t [THEN conjunct2, THEN conjunct2, THEN conjunct2, THEN conjunct2, THEN conjunct1]
  note c7 = t [THEN conjunct2, THEN conjunct2, THEN conjunct2, THEN conjunct2, THEN conjunct2,
      THEN conjunct2, THEN conjunct1]
  note c8 = t [THEN conjunct2, THEN conjunct2, THEN conjunct2, THEN conjunct2, THEN conjunct2,
      THEN conjunct2, THEN conjunct2, THEN conjunct1]
  from c3 have a: "snd (movetag_defs st_foo ''foo.bar'' ''zar.qux'') ''foo.bar'' = Some ''zar.qux''" .
  from c4 [rule_format, OF m]
  have b: "snd (movetag_defs st_foo ''foo.bar'' ''zar.qux'') ''foo.bar.baz'' = Some ''zar.qux.baz''"
    by simp
  from c1 x have c: "snd (movetag_defs st_foo ''foo.bar'' ''zar.qux'') ''foo.barbaz'' = None"
    by (auto simp: dom_def)
  from c5 [rule_format, OF o]
  have d: "syntag_get (fst (movetag_defs st_foo ''foo.bar'' ''zar.qux'')) ''foo.bar'' isnow
      = Some ''zar.qux''"
    by (simp add: renamed_def)
  from c5 [rule_format, OF m']
  have e: "syntag_get (fst (movetag_defs st_foo ''foo.bar'' ''zar.qux'')) ''foo.bar.baz'' isnow
      = Some ''zar.qux.baz''"
    by (simp add: renamed_def)
  from c8 [THEN mp, OF A, THEN bspec, OF m']
  have f: "map_of (tagdefs (fst (movetag_defs st_foo ''foo.bar'' ''zar.qux''))) ''zar.qux.baz''
       = Some \<lparr>doc = Some ''about baz'', title = Some ''Baz'', isnow = None\<rparr>"
    by (simp add: renamed_def renamed_tagdef_def syntag_get_def st_foo_def)
  from c7 [rule_format, of "''foo.barbaz''"] x x'
  have g: "map_of (tagdefs (fst (movetag_defs st_foo ''foo.bar'' ''zar.qux''))) ''foo.barbaz''
       = Some \<lparr>doc = None, title = None, isnow = None\<rparr>"
    by (simp add: st_foo_def)
  from a b c d e f g show ?thesis by (intro conjI)
qed

text \<open>
  C5, as the code has it. Running the command a second time with the same
  arguments leaves the store exactly as the first run left it (the same
  tag-definitions, and on every node the same tag applications with the same
  values) whenever neither of \<^verbatim>\<open>oldtag\<close> and \<^verbatim>\<open>newtag\<close> is a dotted-path prefix of the
  other, which includes \<^verbatim>\<open>newtag\<close> being \<^verbatim>\<open>oldtag\<close> itself; and, more generally,
  whenever no tag-definition the first loop goes through is renamed to a name in
  the tree of \<^verbatim>\<open>oldtag\<close>.
\<close>

theorem C5_movetag_twice_is_once:
  assumes "(\<not> dotted_prefix old new \<and> \<not> dotted_prefix new old)
           \<or> (\<forall>t \<in> tree_defs st old new. \<not> in_tree old (renamed old new t))"
  shows "movetag (movetag st old new) old new = movetag st old new"
proof -
  have A: "(\<forall>t \<in> tree_defs st old new. \<not> in_tree old (renamed old new t)) \<or> old = new"
    using assms unrelated_tree_defs [of old new st] by (auto simp: in_tree_def)
  define L where "L = getNodesBy_pref (fst (addNode (fst (addNode st old)) new)) old"
  define r where "r = snd (movetag_defs st old new)"
  define st3 where "st3 = fst (movetag_defs st old new)"
  define st4 where "st4 = movetag st old new"
  note run = movetag_run [OF A, folded L_def r_def st3_def]
  have s4: "st4 = fst (foldl (retag_step r) (st3, 0) (getNodesBy_tag st3 old))"
    unfolding st4_def movetag_unfold st3_def r_def by simp
  then have td4: "tagdefs st4 = tagdefs st3" by simp
  have idem: "retag_node r (retag_node r n) = retag_node r n" for n
  proof (cases "old = new")
    case True
    have "r k = (if k \<in> set L then Some k else None)" for k
    proof (cases "k \<in> set L")
      case k: True
      with run(6) have "in_tree old k" by (simp add: tree_defs_in_tree)
      from renamed_same [OF this] k True show ?thesis by (simp add: run(1))
    next
      case False
      moreover from run(6) old_in_tree_defs [of old st new] have "old \<in> set L" by simp
      ultimately show ?thesis by (auto simp: run(1))
    qed
    then show ?thesis by (rule retag_node_same_idem)
  next
    case False
    with A have "\<forall>t \<in> tree_defs st old new. \<not> in_tree old (renamed old new t)" by simp
    from movetag_run_vals [OF this, folded r_def] show ?thesis by (rule retag_node_vals_idem)
  qed
  have n4: "nodes st4 =
      map (\<lambda>n. if buid n \<in> set (getNodesBy_tag st3 old) then retag_node r n else n) (nodes st3)"
    unfolding s4 by (rule foldl_retag_step_nodes) (simp add: idem)
  have fixed: "\<forall>m \<in> set (nodes st4). retag_node r m = m"
  proof
    fix m assume "m \<in> set (nodes st4)"
    with n4 obtain n where n: "n \<in> set (nodes st3)"
      "m = (if buid n \<in> set (getNodesBy_tag st3 old) then retag_node r n else n)"
      by auto
    show "retag_node r m = m"
    proof (cases "buid n \<in> set (getNodesBy_tag st3 old)")
      case True
      with n(2) idem show ?thesis by simp
    next
      case False
      with n(1) have "\<not> carries old n" by (auto simp: getNodesBy_tag_def)
      from not_carries_clean [OF run(7) this] have "retag_node r n = n" by (rule retag_node_clean_id)
      with False n(2) show ?thesis by simp
    qed
  qed
  have a1: "addNode st4 old = (st4, old)" using run(4) td4 by (intro addNode_key_id) simp
  have a2: "addNode st4 new = (st4, new)" using run(5) td4 by (intro addNode_key_id) simp
  have L4: "getNodesBy_pref st4 old = L" using run(3) td4 by (simp add: getNodesBy_pref_def)
  have d4: "movetag_defs st4 old new = foldl (isnow_step old new (length old)) (st4, [old \<mapsto> new]) L"
    by (simp add: movetag_defs_unfold a1 a2 L4)
  have "settled old new st4 t = settled old new st3 t" for t
    by (rule settled_cong) (simp_all only: td4)
  with run(2) have "\<forall>t \<in> set L. settled old new st4 t" by simp
  then have f4: "fst (movetag_defs st4 old new) = st4"
    unfolding d4 by (rule foldl_isnow_settled_id)
  have r4: "snd (movetag_defs st4 old new) = r"
    unfolding d4 run(1) by (rule foldl_isnow_retag)
  have "movetag st4 old new = fst (foldl (retag_step r) (st4, 0) (getNodesBy_tag st4 old))"
    by (simp add: movetag_unfold f4 r4)
  also have "\<dots> = st4" using fixed by (rule foldl_retag_step_fixed)
  finally show ?thesis by (simp add: st4_def)
qed

text \<open>
  Two renames after which a second run changes the store again.
  \<^item> Renaming \<^verbatim>\<open>foo\<close> to \<^verbatim>\<open>foo.bar\<close>, a tag inside its own tree: the first run leaves
    \<open>nodeX\<close> tagged \<^verbatim>\<open>foo.bar\<close>, and the second run, finding that tag in the tree of
    \<^verbatim>\<open>foo\<close>, moves it on to \<^verbatim>\<open>foo.bar.bar\<close>.
  \<^item> Renaming \<^verbatim>\<open>a.b\<close> to its parent \<^verbatim>\<open>a\<close> in \<open>st_abb\<close>, where the definition \<^verbatim>\<open>a.b.b\<close>
    is renamed to \<^verbatim>\<open>a.b\<close>, a name in the tree: the first run leaves \<open>nodeX\<close> tagged
    \<^verbatim>\<open>a.b\<close> with the interval, and the second run moves that on to \<^verbatim>\<open>a\<close>.
\<close>

theorem C5_nested_rename_moves_again:
  "map tags (nodes (movetag st_f ''foo'' ''foo.bar'')) = [[(''foo.bar'', None)]]
   \<and> map tags (nodes (movetag (movetag st_f ''foo'' ''foo.bar'') ''foo'' ''foo.bar''))
       = [[(''foo.bar.bar'', None)]]
   \<and> movetag (movetag st_f ''foo'' ''foo.bar'') ''foo'' ''foo.bar'' \<noteq> movetag st_f ''foo'' ''foo.bar''
   \<and> map tags (nodes (movetag st_abb ''a.b'' ''a'')) = [[(''a.b'', Some (100, 200))]]
   \<and> map tags (nodes (movetag (movetag st_abb ''a.b'' ''a'') ''a.b'' ''a''))
       = [[(''a'', Some (100, 200))]]
   \<and> movetag (movetag st_abb ''a.b'' ''a'') ''a.b'' ''a'' \<noteq> movetag st_abb ''a.b'' ''a''"
proof -
  have "movetag (movetag st_f ''foo'' ''foo.bar'') ''foo'' ''foo.bar'' \<noteq> movetag st_f ''foo'' ''foo.bar''"
    by (subst ex_movetag_f2, subst ex_movetag_f) (simp add: nodeX_def)
  moreover have "map tags (nodes (movetag st_f ''foo'' ''foo.bar'')) = [[(''foo.bar'', None)]]"
    unfolding ex_movetag_f by (simp add: nodeX_def)
  moreover have "map tags (nodes (movetag (movetag st_f ''foo'' ''foo.bar'') ''foo'' ''foo.bar''))
       = [[(''foo.bar.bar'', None)]]"
    by (subst ex_movetag_f2) (simp add: nodeX_def)
  moreover have "movetag (movetag st_abb ''a.b'' ''a'') ''a.b'' ''a'' \<noteq> movetag st_abb ''a.b'' ''a''"
    by (subst ex_movetag_abb2, subst ex_movetag_abb) (simp add: nodeX_def)
  moreover have "map tags (nodes (movetag st_abb ''a.b'' ''a'')) = [[(''a.b'', Some (100, 200))]]"
    unfolding ex_movetag_abb by (simp add: nodeX_def)
  moreover have "map tags (nodes (movetag (movetag st_abb ''a.b'' ''a'') ''a.b'' ''a''))
       = [[(''a'', Some (100, 200))]]"
    by (subst ex_movetag_abb2) (simp add: nodeX_def)
  ultimately show ?thesis by blast
qed

theorem C5_movetag_twice_witness:
  "\<not> dotted_prefix ''foo.bar'' ''zar.qux'' \<and> \<not> dotted_prefix ''zar.qux'' ''foo.bar''
   \<and> movetag (movetag st_foo ''foo.bar'' ''zar.qux'') ''foo.bar'' ''zar.qux''
       = movetag st_foo ''foo.bar'' ''zar.qux''
   \<and> \<not> dotted_prefix ''foo.bar'' ''foo.bar''
   \<and> movetag (movetag st_foo ''foo.bar'' ''foo.bar'') ''foo.bar'' ''foo.bar''
       = movetag st_foo ''foo.bar'' ''foo.bar''"
proof -
  have a: "\<not> dotted_prefix ''foo.bar'' ''zar.qux''" and b: "\<not> dotted_prefix ''zar.qux'' ''foo.bar''"
    and c: "\<not> dotted_prefix ''foo.bar'' ''foo.bar''"
    by (simp_all add: dotted_prefix_def)
  from C5_movetag_twice_is_once [of "''foo.bar''" "''zar.qux''" st_foo]
    C5_movetag_twice_is_once [of "''foo.bar''" "''foo.bar''" st_foo] a b c
  show ?thesis by simp
qed

text \<open>
  C4, at a rename into the parent. In \<open>st_ab\<close> the node carries \<^verbatim>\<open>a.b\<close> without a
  value and \<^verbatim>\<open>a.b.b\<close> with the interval (100, 200). Renaming \<^verbatim>\<open>a.b\<close> to \<^verbatim>\<open>a\<close> maps
  \<^verbatim>\<open>a.b.b\<close> to \<^verbatim>\<open>a.b\<close> and \<^verbatim>\<open>a.b\<close> to \<^verbatim>\<open>a\<close>. The reverse-sorted loop retags \<^verbatim>\<open>a.b.b\<close>
  first, as \<^verbatim>\<open>a.b\<close> with (100, 200), and then retags \<^verbatim>\<open>a.b\<close>, deleting what it has
  just added: the node is left with \<^verbatim>\<open>a\<close> alone, and the interval is gone.
\<close>

theorem C4_rename_into_parent_drops_value:
  "map tags (nodes st_ab) = [[(''a.b'', None), (''a.b.b'', Some (100, 200))]]
   \<and> snd (movetag_defs st_ab ''a.b'' ''a'') ''a.b.b'' = Some ''a.b''
   \<and> snd (movetag_defs st_ab ''a.b'' ''a'') ''a.b'' = Some ''a''
   \<and> map tags (nodes (movetag st_ab ''a.b'' ''a'')) = [[(''a'', None)]]"
proof -
  have r: "snd (movetag_defs st_ab ''a.b'' ''a'') = [''a.b'' \<mapsto> ''a'', ''a.b.b'' \<mapsto> ''a.b'']"
    by (simp add: movetag_eval st_ab_def)
  have s: "map tags (nodes st_ab) = [[(''a.b'', None), (''a.b.b'', Some (100, 200))]]"
    by (simp add: st_ab_def nodeX_def)
  have m: "map tags (nodes (movetag st_ab ''a.b'' ''a'')) = [[(''a'', None)]]"
    unfolding ex_movetag_ab by (simp add: nodeX_def)
  from r s m show ?thesis by simp
qed

end
